theory Spec2Isabelle
  imports Main
begin

section \<open>Strings\<close>

text \<open>
  A JavaScript string is modelled as a \<^typ>\<open>string\<close>, the sequence of its characters as the
  terminal and the disk see them (UTF-8 bytes): the ASCII characters the program tests for
  (line feed, escape, dollar, quotes, letters, digits) are single characters, and the three
  box-drawing and arrow characters of the diff renderer are written as their UTF-8 bytes.
\<close>

definition NL :: string where
  "NL = [CHR 0x0A]"

text \<open>\<^verbatim>\<open>s.startsWith(p)\<close>.\<close>

definition startsWith :: "string \<Rightarrow> string \<Rightarrow> bool" where
  "startsWith s p = (take (length p) s = p)"

text \<open>
  \<^verbatim>\<open>s.split(sep)\<close> for a string separator: the pieces between the matches of \<open>sep\<close>, found
  from left to right without overlap; the empty separator splits into single characters.
  \<open>split_from sep acc s\<close> scans \<open>s\<close> with the current piece \<open>acc\<close> (reversed).
\<close>

function split_from :: "string \<Rightarrow> string \<Rightarrow> string \<Rightarrow> string list" where
  "split_from sep acc s =
     (if s = [] then [rev acc]
      else if sep \<noteq> [] \<and> startsWith s sep then rev acc # split_from sep [] (drop (length sep) s)
      else split_from sep (hd s # acc) (tl s))"
  by pat_completeness auto
termination
  by (relation "measure (\<lambda>(sep, acc, s). length s)") auto

declare split_from.simps [simp del]

definition split :: "string \<Rightarrow> string \<Rightarrow> string list" where
  "split s sep = (if sep = [] then map (\<lambda>c. [c]) s else split_from sep [] s)"

text \<open>\<^verbatim>\<open>xs.join(sep)\<close>.\<close>

fun join :: "string list \<Rightarrow> string \<Rightarrow> string" where
  "join [] sep = []"
| "join [x] sep = x"
| "join (x # y # ys) sep = x @ sep @ join (y # ys) sep"

text \<open>\<^verbatim>\<open>xs.slice(a, b)\<close> and \<^verbatim>\<open>xs.slice(a)\<close> for indices \<open>0 \<le> a\<close>, \<open>0 \<le> b\<close>.\<close>

definition slice :: "'a list \<Rightarrow> nat \<Rightarrow> nat \<Rightarrow> 'a list" where
  "slice xs a b = take (b - a) (drop a xs)"

definition slice_from :: "'a list \<Rightarrow> nat \<Rightarrow> 'a list" where
  "slice_from xs a = drop a xs"

text \<open>\<^verbatim>\<open>String(n)\<close> for a non-negative integer, and \<^verbatim>\<open>s.padStart(w, " ")\<close>.\<close>

definition digit :: "nat \<Rightarrow> char" where
  "digit d = char_of (48 + d)"

fun String_of :: "nat \<Rightarrow> string" where
  "String_of n = (if n < 10 then [digit n] else String_of (n div 10) @ [digit (n mod 10)])"

declare String_of.simps [simp del]

definition padStart :: "string \<Rightarrow> nat \<Rightarrow> string" where
  "padStart s w = replicate (w - length s) (CHR '' '') @ s"

text \<open>\<^verbatim>\<open>s.repeat(n)\<close>.\<close>

definition repeat :: "string \<Rightarrow> nat \<Rightarrow> string" where
  "repeat s n = concat (replicate n s)"

section \<open>Constants (constants.ts)\<close>

definition MAX_TOOL_TURNS :: nat where
  "MAX_TOOL_TURNS = 10"

definition ESC :: char where
  "ESC = CHR 0x1B"

definition C_reset :: string where "C_reset = ESC # ''[0m''"
definition C_bold :: string where "C_bold = ESC # ''[1m''"
definition C_dim :: string where "C_dim = ESC # ''[2m''"
definition C_cyan :: string where "C_cyan = ESC # ''[36m''"
definition C_green :: string where "C_green = ESC # ''[32m''"
definition C_red :: string where "C_red = ESC # ''[31m''"
definition C_grey :: string where "C_grey = ESC # ''[90m''"

text \<open>The characters U+2500, U+2502 and U+2192 of the renderer's templates.\<close>

definition BOX_H :: string where "BOX_H = [CHR 0xE2, CHR 0x94, CHR 0x80]"
definition BOX_V :: string where "BOX_V = [CHR 0xE2, CHR 0x94, CHR 0x82]"
definition ARROW :: string where "ARROW = [CHR 0xE2, CHR 0x86, CHR 0x92]"

section \<open>Diff engine (tools.ts, generateDiff)\<close>

record change =
  oldStart :: nat
  oldCount :: nat
  newStart :: nat
  newCount :: nat
  oldChunk :: "string list"
  newChunk :: "string list"

text \<open>
  The confirmation loop \<^verbatim>\<open>for (k = 1; k < 3 && synced; k++)\<close> at the candidate positions
  \<open>a = i + oi\<close> and \<open>b = j + ni\<close>: the candidate is rejected when a line pair that exists on
  both sides differs.
\<close>

definition synced :: "string list \<Rightarrow> string list \<Rightarrow> nat \<Rightarrow> nat \<Rightarrow> bool" where
  "synced oldLines newLines a b =
     list_all (\<lambda>k. \<not> (a + k < length oldLines \<and> b + k < length newLines \<and>
                       oldLines ! (a + k) \<noteq> newLines ! (b + k))) [1 ..< 3]"

text \<open>
  The splits \<open>(oi, ni)\<close> in the order the two nested loops visit them:
  \<open>lookAhead = 1, \<dots>, 49\<close> outside, \<open>oi = 0, \<dots>, lookAhead\<close> inside, \<open>ni = lookAhead - oi\<close>.
\<close>

definition candidates :: "(nat \<times> nat) list" where
  "candidates = concat (map (\<lambda>lookAhead. map (\<lambda>oi. (oi, lookAhead - oi)) [0 ..< Suc lookAhead]) [1 ..< 50])"

definition resync_at :: "string list \<Rightarrow> string list \<Rightarrow> nat \<Rightarrow> nat \<Rightarrow> nat \<times> nat \<Rightarrow> bool" where
  "resync_at oldLines newLines i j c =
     (case c of (oi, ni) \<Rightarrow>
        i + oi < length oldLines \<and> j + ni < length newLines \<and>
        oldLines ! (i + oi) = newLines ! (j + ni) \<and>
        synced oldLines newLines (i + oi) (j + ni))"

text \<open>The first split the loops accept, or \<open>None\<close> when they end with \<^verbatim>\<open>found\<close> false.\<close>

definition find_resync :: "string list \<Rightarrow> string list \<Rightarrow> nat \<Rightarrow> nat \<Rightarrow> (nat \<times> nat) option" where
  "find_resync oldLines newLines i j = find (resync_at oldLines newLines i j) candidates"

text \<open>
  The main \<^verbatim>\<open>while (i < oldLines.length || j < newLines.length)\<close> loop, with the array
  \<^verbatim>\<open>changes\<close> as an accumulator (\<^verbatim>\<open>push\<close> appends).
\<close>

function diff_loop :: "string list \<Rightarrow> string list \<Rightarrow> nat \<Rightarrow> nat \<Rightarrow> change list \<Rightarrow> change list" where
  "diff_loop oldLines newLines i j changes =
     (if i < length oldLines \<or> j < length newLines then
        (if i < length oldLines \<and> j < length newLines \<and> oldLines ! i = newLines ! j
         then diff_loop oldLines newLines (i + 1) (j + 1) changes
         else (case find_resync oldLines newLines i j of
                 Some (oi, ni) \<Rightarrow>
                   diff_loop oldLines newLines (i + oi) (j + ni)
                     (changes @ [\<lparr>oldStart = i, oldCount = oi, newStart = j, newCount = ni,
                                  oldChunk = slice oldLines i (i + oi),
                                  newChunk = slice newLines j (j + ni)\<rparr>])
               | None \<Rightarrow>
                   changes @ [\<lparr>oldStart = i, oldCount = length oldLines - i,
                                newStart = j, newCount = length newLines - j,
                                oldChunk = slice_from oldLines i,
                                newChunk = slice_from newLines j\<rparr>]))
      else changes)"
  by pat_completeness auto
termination
proof (relation "measure (\<lambda>(oldLines, newLines, i, j, changes).
                   (length oldLines - i) + (length newLines - j))", goal_cases)
  case 1
  show ?case by simp
next
  case (2 oldLines newLines i j changes)
  then show ?case by auto
next
  case (3 oldLines newLines i j changes c oi ni)
  from 3(3,4) have f: "find (resync_at oldLines newLines i j) candidates = Some (oi, ni)"
    by (simp add: find_resync_def)
  then have r: "resync_at oldLines newLines i j (oi, ni)" and m: "(oi, ni) \<in> set candidates"
    by (auto simp: find_Some_iff)
  from m have "1 \<le> oi + ni"
    by (auto simp: candidates_def)
  with r show ?case
    by (auto simp: resync_at_def)
qed

declare diff_loop.simps [simp del]

definition computeChanges :: "string \<Rightarrow> string \<Rightarrow> change list" where
  "computeChanges oldContent newContent =
     diff_loop (split oldContent NL) (split newContent NL) 0 0 []"

text \<open>
  Rendering. The header arithmetic is done on integers, as JavaScript does it
  (\<^verbatim>\<open>change.newStart - ctxBefore + 1\<close> can be negative); an array read out of range gives
  \<^verbatim>\<open>undefined\<close>, which a template prints as the word.
\<close>

definition String_of_int :: "int \<Rightarrow> string" where
  "String_of_int n = (if n < 0 then ''-'' @ String_of (nat (- n)) else String_of (nat n))"

definition line_at :: "string list \<Rightarrow> nat \<Rightarrow> string" where
  "line_at ls k = (if k < length ls then ls ! k else ''undefined'')"

definition rule_line :: string where
  "rule_line = C_bold @ C_grey @ repeat BOX_H 80 @ C_reset"

definition gutter :: "nat \<Rightarrow> string" where
  "gutter n = C_grey @ padStart (String_of n) 4 @ '' '' @ BOX_V @ C_reset"

definition context_line :: "string list \<Rightarrow> nat \<Rightarrow> string" where
  "context_line oldLines k = gutter (k + 1) @ C_dim @ ''   '' @ line_at oldLines k @ C_reset"

definition removed_line :: "change \<Rightarrow> nat \<Rightarrow> string" where
  "removed_line c idx =
     gutter (oldStart c + idx + 1) @ C_red @ C_bold @ '' - '' @ line_at (oldChunk c) idx @ C_reset"

definition added_line :: "change \<Rightarrow> nat \<Rightarrow> string" where
  "added_line c idx =
     gutter (newStart c + idx + 1) @ C_green @ C_bold @ '' + '' @ line_at (newChunk c) idx @ C_reset"

definition render_change :: "string list \<Rightarrow> string list \<Rightarrow> nat \<Rightarrow> change \<Rightarrow> string list" where
  "render_change oldLines newLines contextLines c =
     (let ctxBefore = min (int contextLines) (int (oldStart c));
          ctxAfterOld = min (int contextLines) (int (length oldLines) - (int (oldStart c) + int (oldCount c)));
          ctxAfterNew = min (int contextLines) (int (length newLines) - (int (newStart c) + int (newCount c)));
          blockOldStart = int (oldStart c) - ctxBefore + 1;
          blockOldLen = ctxBefore + int (oldCount c) + ctxAfterOld;
          blockNewStart = int (newStart c) - ctxBefore + 1;
          blockNewLen = ctxBefore + int (newCount c) + min ctxAfterOld ctxAfterNew
      in [C_bold @ C_cyan @ ''@@ Lines before & after: '' @ String_of_int blockOldStart @ ''-'' @
            String_of_int (blockOldStart + blockOldLen - 1) @ '' '' @ ARROW @ '' '' @
            String_of_int blockNewStart @ ''-'' @ String_of_int (blockNewStart + blockNewLen - 1) @
            '' @@'' @ C_reset]
         @ map (context_line oldLines) [nat (int (oldStart c) - ctxBefore) ..< oldStart c]
         @ map (removed_line c) [0 ..< length (oldChunk c)]
         @ map (added_line c) [0 ..< length (newChunk c)]
         @ map (context_line oldLines)
             (filter (\<lambda>idx. idx < length oldLines)
                (map (\<lambda>k. oldStart c + oldCount c + k) [0 ..< nat ctxAfterOld]))
         @ [[]])"

definition generateDiff :: "string \<Rightarrow> string \<Rightarrow> string \<Rightarrow> nat \<Rightarrow> string" where
  "generateDiff oldContent newContent filePath contextLines =
     (let oldLines = split oldContent NL;
          newLines = split newContent NL;
          changes = diff_loop oldLines newLines 0 0 []
      in if length changes = 0 then ''(no changes)''
         else join ([rule_line, C_bold @ C_cyan @ '' '' @ filePath @ C_reset, rule_line, []]
                    @ concat (map (render_change oldLines newLines contextLines) changes)
                    @ [rule_line]) NL)"

section \<open>Other helpers of tools.ts\<close>

text \<open>
  \<^verbatim>\<open>stripAnsiForAgentJson\<close>: an escape character followed by \<open>[\<close> starts a sequence that
  runs up to and including the next \<open>m\<close> (or to the end of the string).
\<close>

function stripAnsiForAgentJson :: "string \<Rightarrow> string" where
  "stripAnsiForAgentJson str =
     (case str of
        [] \<Rightarrow> []
      | c # r \<Rightarrow>
          if c = ESC \<and> r \<noteq> [] \<and> hd r = CHR ''[''
          then stripAnsiForAgentJson (tl (dropWhile (\<lambda>x. x \<noteq> CHR ''m'') (tl r)))
          else c # stripAnsiForAgentJson r)"
  by pat_completeness auto
termination
proof (relation "measure length", goal_cases)
  case 1
  show ?case by simp
next
  case (2 str c r)
  have "length (tl (dropWhile (\<lambda>x. x \<noteq> CHR ''m'') (tl r))) \<le> length r"
    using length_dropWhile_le [of "\<lambda>x. x \<noteq> CHR ''m''" "tl r"] by simp
  with 2 show ?case by simp
next
  case (3 str c r)
  then show ?case by simp
qed

declare stripAnsiForAgentJson.simps [simp del]

definition formatLineNumbers :: "string list \<Rightarrow> nat \<Rightarrow> string" where
  "formatLineNumbers ls startLine =
     (let maxLineNum = int startLine + int (length ls) - 1;
          gutterWidth = length (String_of_int maxLineNum)
      in join (map (\<lambda>i. padStart (String_of (startLine + i)) gutterWidth @ '' | '' @ ls ! i)
                 [0 ..< length ls]) NL)"

text \<open>\<^verbatim>\<open>s.indexOf(p)\<close>, with \<open>None\<close> for \<open>-1\<close>.\<close>

definition indexOf :: "string \<Rightarrow> string \<Rightarrow> nat option" where
  "indexOf s p = find (\<lambda>k. startsWith (drop k s) p) [0 ..< Suc (length s)]"

record snippet_info =
  start_line :: nat
  end_line :: nat
  snippet :: string

definition getChangeSnippet :: "string \<Rightarrow> string \<Rightarrow> nat \<Rightarrow> snippet_info" where
  "getChangeSnippet content changedStr contextLines =
     (let ls = split content NL in
      case indexOf content changedStr of
        None \<Rightarrow> \<lparr>start_line = 1, end_line = 1, snippet = []\<rparr>
      | Some changeStart \<Rightarrow>
          (let linesBefore = split (take changeStart content) NL;
               startLine = length linesBefore;
               changeLines = length (split changedStr NL);
               endLine = startLine + changeLines - 1;
               snippetStart = nat (max 0 (int startLine - 1 - int contextLines));
               snippetEnd = min (length ls) (endLine + contextLines);
               snippetLines = slice ls snippetStart snippetEnd
           in \<lparr>start_line = snippetStart + 1, end_line = snippetEnd,
                snippet = formatLineNumbers snippetLines (snippetStart + 1)\<rparr>))"

text \<open>
  \<^verbatim>\<open>content.replace(pattern, replacement)\<close> with a string pattern: the first match is
  replaced, and in the replacement \<^verbatim>\<open>$$\<close> stands for a dollar, \<^verbatim>\<open>$&\<close> for the match,
  \<^verbatim>\<open>$`\<close> for the text before it and \<^verbatim>\<open>$'\<close> for the text after it; there are no
  capture groups, so every other dollar stays as it is.
\<close>

fun getSubstitution :: "string \<Rightarrow> string \<Rightarrow> string \<Rightarrow> string \<Rightarrow> string" where
  "getSubstitution matched preceding following [] = []"
| "getSubstitution matched preceding following [c] = [c]"
| "getSubstitution matched preceding following (c # d # r) =
     (if c = CHR ''$'' \<and> d = CHR ''$'' then CHR ''$'' # getSubstitution matched preceding following r
      else if c = CHR ''$'' \<and> d = CHR ''&'' then matched @ getSubstitution matched preceding following r
      else if c = CHR ''$'' \<and> d = CHR 0x60 then preceding @ getSubstitution matched preceding following r
      else if c = CHR ''$'' \<and> d = CHR 0x27 then following @ getSubstitution matched preceding following r
      else c # getSubstitution matched preceding following (d # r))"

definition replace :: "string \<Rightarrow> string \<Rightarrow> string \<Rightarrow> string" where
  "replace content pattern replacement =
     (case indexOf content pattern of
        None \<Rightarrow> content
      | Some p \<Rightarrow>
          take p content
          @ getSubstitution pattern (take p content) (drop (p + length pattern) content) replacement
          @ drop (p + length pattern) content)"

definition endsWith :: "string \<Rightarrow> string \<Rightarrow> bool" where
  "endsWith s p = (length p \<le> length s \<and> drop (length s - length p) s = p)"

section \<open>JSON values and JSON.stringify\<close>

datatype json =
  JNull
| JBool bool
| JNum int
| JStr string
| JArr "json list"
| JObj "(string \<times> json) list"

definition hex_digit :: "nat \<Rightarrow> char" where
  "hex_digit d = (if d < 10 then char_of (48 + d) else char_of (87 + d))"

definition BACKSLASH :: char where
  "BACKSLASH = CHR 0x5C"

definition DQUOTE :: char where
  "DQUOTE = CHR 0x22"

definition quote_char :: "char \<Rightarrow> string" where
  "quote_char c =
     (if c = DQUOTE then [BACKSLASH, DQUOTE]
      else if c = BACKSLASH then [BACKSLASH, BACKSLASH]
      else if c = CHR 0x08 then [BACKSLASH, CHR ''b'']
      else if c = CHR 0x0C then [BACKSLASH, CHR ''f'']
      else if c = CHR 0x0A then [BACKSLASH, CHR ''n'']
      else if c = CHR 0x0D then [BACKSLASH, CHR ''r'']
      else if c = CHR 0x09 then [BACKSLASH, CHR ''t'']
      else if (of_char c :: nat) < 32
        then [BACKSLASH, CHR ''u'', CHR ''0'', CHR ''0'',
              hex_digit (of_char c div 16), hex_digit (of_char c mod 16)]
      else [c])"

definition quote :: "string \<Rightarrow> string" where
  "quote s = DQUOTE # concat (map quote_char s) @ [DQUOTE]"

text \<open>\<^verbatim>\<open>JSON.stringify(v)\<close>.\<close>

fun stringify :: "json \<Rightarrow> string" where
  "stringify JNull = ''null''"
| "stringify (JBool b) = (if b then ''true'' else ''false'')"
| "stringify (JNum n) = String_of_int n"
| "stringify (JStr s) = quote s"
| "stringify (JArr vs) = ''['' @ join (map stringify vs) '','' @ '']''"
| "stringify (JObj kvs) =
     ''{'' @ join (map (\<lambda>kv. quote (fst kv) @ '':'' @ stringify (snd kv)) kvs) '','' @ ''}''"

text \<open>\<^verbatim>\<open>JSON.stringify(v, null, 2)\<close>, at nesting depth \<open>d\<close>.\<close>

definition indent :: "nat \<Rightarrow> string" where
  "indent d = replicate (2 * d) (CHR '' '')"

fun stringify_pretty :: "nat \<Rightarrow> json \<Rightarrow> string" where
  "stringify_pretty d JNull = ''null''"
| "stringify_pretty d (JBool b) = (if b then ''true'' else ''false'')"
| "stringify_pretty d (JNum n) = String_of_int n"
| "stringify_pretty d (JStr s) = quote s"
| "stringify_pretty d (JArr vs) =
     (if vs = [] then ''[]''
      else ''['' @ NL
           @ join (map (\<lambda>v. indent (Suc d) @ stringify_pretty (Suc d) v) vs) ('','' @ NL)
           @ NL @ indent d @ '']'')"
| "stringify_pretty d (JObj kvs) =
     (if kvs = [] then ''{}''
      else ''{'' @ NL
           @ join (map (\<lambda>kv. indent (Suc d) @ quote (fst kv) @ '': '' @ stringify_pretty (Suc d) (snd kv)) kvs)
               ('','' @ NL)
           @ NL @ indent d @ ''}'')"

section \<open>The platform: paths and the file system\<close>

text \<open>
  Node's \<^verbatim>\<open>path\<close>, \<^verbatim>\<open>os\<close> and \<^verbatim>\<open>fs\<close> modules are not part of the repository; they are
  taken as parameters. A file-system state has type \<open>'fs\<close>; reading and the existence test
  do not change it, writing and directory creation return the new state and may fail with a
  JavaScript error (name, code, message).
\<close>

record js_error =
  err_name :: string
  err_code :: string
  err_message :: string

record 'fs sys =
  homedir :: string
  cwd :: string
  path_join :: "string \<Rightarrow> string \<Rightarrow> string"
  path_isAbsolute :: "string \<Rightarrow> bool"
  path_resolve :: "string \<Rightarrow> string \<Rightarrow> string"
  path_dirname :: "string \<Rightarrow> string"
  fs_access :: "'fs \<Rightarrow> string \<Rightarrow> bool"
  fs_readFile :: "'fs \<Rightarrow> string \<Rightarrow> js_error + string"
  fs_writeFile :: "'fs \<Rightarrow> string \<Rightarrow> string \<Rightarrow> js_error option \<times> 'fs"
  fs_mkdir :: "'fs \<Rightarrow> string \<Rightarrow> js_error option \<times> 'fs"

text \<open>\<^verbatim>\<open>String(error)\<close> for an error object.\<close>

definition String_of_error :: "js_error \<Rightarrow> string" where
  "String_of_error e =
     (if err_message e = [] then err_name e else err_name e @ '': '' @ err_message e)"

definition expandTilde :: "'fs sys \<Rightarrow> string \<Rightarrow> string" where
  "expandTilde env filePath =
     (if startsWith filePath ''~/'' \<or> filePath = ''~''
      then path_join env (homedir env) (drop 1 filePath)
      else filePath)"

definition createNewFile :: "'fs sys \<Rightarrow> 'fs \<Rightarrow> string \<Rightarrow> string \<Rightarrow> js_error option \<times> 'fs" where
  "createNewFile env fs filePath content =
     (case fs_mkdir env fs (path_dirname env filePath) of
        (Some e, fs1) \<Rightarrow> (Some e, fs1)
      | (None, fs1) \<Rightarrow> fs_writeFile env fs1 filePath content)"

section \<open>The edit_file tool (tools.ts, EditFileTool.execute)\<close>

text \<open>
  The input object as the casts at the head of \<^verbatim>\<open>execute\<close> read it: \<^verbatim>\<open>path\<close> and
  \<^verbatim>\<open>new_str\<close> strings, \<^verbatim>\<open>old_str\<close> and \<^verbatim>\<open>mode\<close> strings or absent, \<^verbatim>\<open>confirm\<close> a
  boolean or absent.
\<close>

record edit_input =
  in_path :: string
  in_old_str :: "string option"
  in_new_str :: string
  in_mode :: "string option"
  in_confirm :: "bool option"

text \<open>A string is truthy when it is present and not empty.\<close>

definition truthy :: "string option \<Rightarrow> bool" where
  "truthy s = (case s of None \<Rightarrow> False | Some t \<Rightarrow> t \<noteq> [])"

definition validModes :: "string list" where
  "validModes = [''replace'', ''insert_before'', ''insert_after'', ''append'']"

definition error_json :: "string \<Rightarrow> string" where
  "error_json msg = stringify (JObj [(''error'', JStr msg)])"

definition changedText :: "string \<Rightarrow> string \<Rightarrow> string \<Rightarrow> string" where
  "changedText mode oldStr newStr =
     (if mode = ''replace'' then newStr
      else if mode = ''insert_before'' then newStr @ NL @ oldStr
      else oldStr @ NL @ newStr)"

text \<open>The part of the \<^verbatim>\<open>try\<close> block after the file has been read.\<close>

definition edit_existing ::
  "'fs sys \<Rightarrow> string option \<Rightarrow> string \<Rightarrow> string \<Rightarrow> string \<Rightarrow> bool \<Rightarrow> string \<Rightarrow> string \<Rightarrow> 'fs
     \<Rightarrow> (js_error + string) \<times> 'fs" where
  "edit_existing env oldStr newStr inputPath mode confirm filePath content fs =
     (if mode = ''append'' then
        (let separator = (if endsWith content NL then [] else NL);
             newContent = content @ separator @ newStr
         in if \<not> confirm then
              (let diff = generateDiff content newContent inputPath 3
               in (Inr (stringify (JObj
                     [(''preview'', JBool True), (''action'', JStr ''append''),
                      (''path'', JStr filePath), (''diff'', JStr (stripAnsiForAgentJson diff)),
                      (''message'', JStr ''Set 'confirm: true' to write these changes.'')])), fs))
            else
              (case fs_writeFile env fs filePath newContent of
                 (Some e, fs1) \<Rightarrow> (Inl e, fs1)
               | (None, fs1) \<Rightarrow>
                   (Inr (stringify (JObj
                      [(''success'', JBool True), (''action'', JStr ''appended''),
                       (''path'', JStr filePath),
                       (''lines_added'', JNum (int (length (split newStr NL)))),
                       (''new_total_lines'', JNum (int (length (split newContent NL))))])), fs1)))
      else if \<not> truthy oldStr then
        (Inr (error_json
           ([CHR 0x27] @ ''old_str'' @ [CHR 0x27] @ '' is required for replace, insert_before, and insert_after modes. To see the current contents, use read_file first.'')), fs)
      else
        (let old = the oldStr;
             occurrences = length (split content old) - 1
         in if occurrences = 0 then
              (Inr (error_json (''String not found in ''  @ [CHR 0x27] @ inputPath @ [CHR 0x27] @
                 ''. Use read_file (with show_line_numbers and/or search) to check the current file contents and copy the exact text.'')), fs)
            else if occurrences > 1 then
              (Inr (error_json (''Found '' @ String_of occurrences @ '' occurrences of old_str in '' @
                 [CHR 0x27] @ inputPath @ [CHR 0x27] @
                 ''. Include more surrounding context in old_str to match exactly one location.'')), fs)
            else
              (let newContent =
                     (if mode = ''insert_before'' then replace content old (newStr @ NL @ old)
                      else if mode = ''insert_after'' then replace content old (old @ NL @ newStr)
                      else replace content old newStr);
                   actionLabel =
                     (if mode = ''insert_before'' then ''inserted_before''
                      else if mode = ''insert_after'' then ''inserted_after''
                      else ''replaced'')
               in if \<not> confirm then
                    (let diff = generateDiff content newContent inputPath 3;
                         snip = getChangeSnippet newContent (changedText mode old newStr) 3
                     in (Inr (stringify (JObj
                           [(''preview'', JBool True), (''action'', JStr actionLabel),
                            (''path'', JStr filePath), (''diff'', JStr (stripAnsiForAgentJson diff)),
                            (''change_location'',
                               JObj [(''start_line'', JNum (int (start_line snip))),
                                     (''end_line'', JNum (int (end_line snip)))]),
                            (''message'', JStr ''Set 'confirm: true' to write these changes.'')])), fs))
                  else
                    (case fs_writeFile env fs filePath newContent of
                       (Some e, fs1) \<Rightarrow> (Inl e, fs1)
                     | (None, fs1) \<Rightarrow>
                         (let snip = getChangeSnippet newContent (changedText mode old newStr) 3
                          in (Inr (stringify_pretty 0 (JObj
                                [(''success'', JBool True), (''action'', JStr actionLabel),
                                 (''path'', JStr filePath),
                                 (''change_location'',
                                    JObj [(''start_line'', JNum (int (start_line snip))),
                                          (''end_line'', JNum (int (end_line snip)))]),
                                 (''snippet'', JStr (snippet snip))])), fs1))))))"

text \<open>The \<^verbatim>\<open>try\<close> block: a thrown error is \<open>Inl\<close>, a returned string \<open>Inr\<close>.\<close>

definition edit_try ::
  "'fs sys \<Rightarrow> string option \<Rightarrow> string \<Rightarrow> string \<Rightarrow> string \<Rightarrow> bool \<Rightarrow> string \<Rightarrow> 'fs
     \<Rightarrow> (js_error + string) \<times> 'fs" where
  "edit_try env oldStr newStr inputPath mode confirm filePath fs =
     (let fileExists = fs_access env fs filePath in
      if \<not> fileExists then
        (if truthy oldStr \<or> mode = ''append'' then
           (Inr (error_json (''File '' @ [CHR 0x27] @ inputPath @ [CHR 0x27] @
              '' not found. Cannot edit a file that doesn'' @ [CHR 0x27] @
              ''t exist. Use use_bash (e.g. find or ls) to check available files.'')), fs)
         else if \<not> confirm then
           (Inr (stringify (JObj
              [(''preview'', JBool True), (''action'', JStr ''create''), (''path'', JStr filePath),
               (''lines'', JNum (int (length (split newStr NL)))),
               (''content_preview'',
                  JStr (if length newStr > 500 then take 500 newStr @ NL @ ''... [truncated]''
                        else newStr)),
               (''message'', JStr ''Set 'confirm: true' to create this file.'')])), fs)
         else
           (case createNewFile env fs filePath newStr of
              (Some e, fs1) \<Rightarrow> (Inl e, fs1)
            | (None, fs1) \<Rightarrow>
                (Inr (stringify (JObj
                   [(''success'', JBool True), (''action'', JStr ''created''),
                    (''path'', JStr filePath),
                    (''lines'', JNum (int (length (split newStr NL))))])), fs1)))
      else
        (case fs_readFile env fs filePath of
           Inl e \<Rightarrow> (Inl e, fs)
         | Inr content \<Rightarrow>
             edit_existing env oldStr newStr inputPath mode confirm filePath content fs))"

text \<open>
  \<^verbatim>\<open>execute\<close> on a typed input: the two checks before the \<^verbatim>\<open>try\<close>, the \<^verbatim>\<open>try\<close> block, and
  the \<^verbatim>\<open>catch\<close> block that turns a thrown error into a returned JSON text. The result is the
  returned string and the file system afterwards.
\<close>

definition edit_execute :: "'fs sys \<Rightarrow> edit_input \<Rightarrow> 'fs \<Rightarrow> string \<times> 'fs" where
  "edit_execute env input fs =
     (let oldStr = in_old_str input;
          newStr = in_new_str input;
          inputPath = in_path input;
          mode = (case in_mode input of None \<Rightarrow> ''replace''
                  | Some m \<Rightarrow> if m = [] then ''replace'' else m);
          confirm = (case in_confirm input of None \<Rightarrow> False | Some b \<Rightarrow> b);
          workspaceRoot = cwd env;
          expandedPath = expandTilde env inputPath;
          filePath = (if path_isAbsolute env expandedPath then expandedPath
                      else path_resolve env workspaceRoot expandedPath)
      in if mode \<notin> set validModes then
           (error_json (''Invalid mode '' @ [CHR 0x27] @ mode @ [CHR 0x27] @
              ''. Must be one of: '' @ join validModes '', ''), fs)
         else if mode = ''replace'' \<and> oldStr \<noteq> None \<and> oldStr = Some newStr then
           (error_json ([CHR 0x27] @ ''old_str'' @ [CHR 0x27] @ '' and '' @ [CHR 0x27] @
              ''new_str'' @ [CHR 0x27] @ '' must be different in replace mode.''), fs)
         else
           (case edit_try env oldStr newStr inputPath mode confirm filePath fs of
              (Inr result, fs1) \<Rightarrow> (result, fs1)
            | (Inl err, fs1) \<Rightarrow>
                (if err_code err = ''EPERM'' \<or> err_code err = ''EACCES'' then
                   (error_json (''Permission denied writing to '' @ [CHR 0x27] @ inputPath @
                      [CHR 0x27] @ ''.''), fs1)
                 else
                   (error_json (''Could not edit file '' @ [CHR 0x27] @ inputPath @ [CHR 0x27] @
                      ''. '' @ (if err_message err \<noteq> [] then err_message err
                               else String_of_error err)), fs1))))"

section \<open>Interactive input (input-handler.ts)\<close>

text \<open>
  \<^verbatim>\<open>trim\<close> removes the white space and line terminators of ECMAScript from both ends; the
  ones beyond ASCII are listed as their UTF-8 bytes. \<^verbatim>\<open>toLowerCase\<close> is modelled on the
  letters A to Z; the case mapping of other characters is not modelled (it yields no string
  that the program compares against).
\<close>

definition whitespace :: "string list" where
  "whitespace =
     [[CHR 0x09], [CHR 0x0A], [CHR 0x0B], [CHR 0x0C], [CHR 0x0D], [CHR 0x20],
      [CHR 0xC2, CHR 0xA0], [CHR 0xE1, CHR 0x9A, CHR 0x80],
      [CHR 0xE2, CHR 0x80, CHR 0x80], [CHR 0xE2, CHR 0x80, CHR 0x81],
      [CHR 0xE2, CHR 0x80, CHR 0x82], [CHR 0xE2, CHR 0x80, CHR 0x83],
      [CHR 0xE2, CHR 0x80, CHR 0x84], [CHR 0xE2, CHR 0x80, CHR 0x85],
      [CHR 0xE2, CHR 0x80, CHR 0x86], [CHR 0xE2, CHR 0x80, CHR 0x87],
      [CHR 0xE2, CHR 0x80, CHR 0x88], [CHR 0xE2, CHR 0x80, CHR 0x89],
      [CHR 0xE2, CHR 0x80, CHR 0x8A], [CHR 0xE2, CHR 0x80, CHR 0xA8],
      [CHR 0xE2, CHR 0x80, CHR 0xA9], [CHR 0xE2, CHR 0x80, CHR 0xAF],
      [CHR 0xE2, CHR 0x81, CHR 0x9F], [CHR 0xE3, CHR 0x80, CHR 0x80],
      [CHR 0xEF, CHR 0xBB, CHR 0xBF]]"

function strip_leading :: "string list \<Rightarrow> string \<Rightarrow> string" where
  "strip_leading ws s =
     (case find (\<lambda>w. w \<noteq> [] \<and> startsWith s w) ws of
        None \<Rightarrow> s
      | Some w \<Rightarrow> strip_leading ws (drop (length w) s))"
  by pat_completeness auto
termination
proof (relation "measure (\<lambda>(ws, s). length s)", goal_cases)
  case 1
  show ?case by simp
next
  case (2 ws s w)
  then have "w \<noteq> []" and "take (length w) s = w"
    by (auto simp: find_Some_iff startsWith_def)
  then have w: "w \<noteq> []" and t: "take (length w) s = w"
    by simp_all
  from t have "length w = min (length s) (length w)"
    using length_take [of "length w" s] by simp
  then have "length w \<le> length s"
    by linarith
  moreover from w have "0 < length w"
    by simp
  ultimately have "length s - length w < length s"
    by linarith
  then show ?case by simp
qed

declare strip_leading.simps [simp del]

definition trim :: "string \<Rightarrow> string" where
  "trim s = rev (strip_leading (map rev whitespace) (rev (strip_leading whitespace s)))"

definition lower_char :: "char \<Rightarrow> char" where
  "lower_char c =
     (if 65 \<le> (of_char c :: nat) \<and> (of_char c :: nat) \<le> 90 then char_of ((of_char c :: nat) + 32) else c)"

definition toLowerCase :: "string \<Rightarrow> string" where
  "toLowerCase s = map lower_char s"

section \<open>Messages, tools and the agent's state (agent.ts)\<close>

datatype role = User | Assistant

record tool_use =
  tu_id :: string
  tu_name :: string
  tu_input :: json

text \<open>\<open>is_error\<close> is true when the field is present and true; the program never sets it to false.\<close>

record tool_result =
  tool_use_id :: string
  tr_content :: string
  is_error :: bool

datatype block =
  TextBlock string
| ToolUseBlock tool_use
| ToolResultBlock tool_result

datatype content =
  StringContent string
| BlockContent "block list"

record message =
  msg_role :: role
  msg_content :: content

record response =
  resp_content :: "block list"
  stop_reason :: string

text \<open>
  How a call of \<^verbatim>\<open>execute\<close> ends in the race against the 30 second timer: the promise
  resolves with a string, it rejects (or \<^verbatim>\<open>execute\<close> throws) with a message, or it is still
  pending when the timer fires. The call also leaves the world \<open>'w\<close> in a new state.
\<close>

datatype outcome = Resolved string | Rejected string | Pending

text \<open>Of \<^verbatim>\<open>input_schema\<close> only \<^verbatim>\<open>required\<close> is read; an absent list is the empty list.\<close>

record 'w tool =
  tool_name :: string
  tool_required :: "string list"
  tool_execute :: "json \<Rightarrow> 'w \<Rightarrow> outcome \<times> 'w"

text \<open>
  What the agent does that an observer can see: a batch handed to \<^verbatim>\<open>executeTools\<close>, a call of
  a tool's \<^verbatim>\<open>execute\<close> (with the id of the request), the turn limit notice, the text printed at
  the end of a turn, the transcript written at shutdown.
\<close>

datatype event =
  ToolBatch "tool_use list"
| Executed string
| StopNotice
| Printed string
| Saved "message list"

text \<open>
  The state threaded through the agent: the lines the operator will still type (after the
  last one the input is closed and \<^verbatim>\<open>getUserMessage\<close> gives \<^verbatim>\<open>null\<close>), the world the tools
  act on, the number of backend calls made, and the events so far.
\<close>

record 'w state =
  pending_lines :: "string list"
  world :: 'w
  backend_calls :: nat
  trace :: "event list"

definition getUserMessage :: "'w state \<Rightarrow> string option \<times> 'w state" where
  "getUserMessage s =
     (case pending_lines s of
        [] \<Rightarrow> (None, s)
      | l # ls \<Rightarrow> (Some l, s\<lparr>pending_lines := ls\<rparr>))"

text \<open>
  \<^verbatim>\<open>validateInput\<close>: \<open>Inl\<close> is the message of the thrown error. A field is in the input
  when it is one of the keys of the object (keys inherited from the prototype of a JavaScript
  object are not modelled).
\<close>

definition validateInput :: "json \<Rightarrow> string list \<Rightarrow> string + unit" where
  "validateInput input required =
     (case input of
        JObj kvs \<Rightarrow>
          (let missing = filter (\<lambda>field. field \<notin> set (map fst kvs)) required
           in if length missing > 0 then Inl (''Missing required fields: '' @ join missing '', '')
              else Inr ())
      | _ \<Rightarrow> Inl ''Input must be a valid object'')"

text \<open>The condition of the approval gate, and the test of the operator's answer.\<close>

definition needs_approval :: "tool_use \<Rightarrow> bool" where
  "needs_approval toolUse =
     (tu_name toolUse = ''edit_file'' \<and>
      (case tu_input toolUse of
         JObj kvs \<Rightarrow> map_of kvs ''confirm'' = Some (JBool True)
       | _ \<Rightarrow> False))"

definition declined :: "string option \<Rightarrow> bool" where
  "declined approval =
     (map_option (\<lambda>a. toLowerCase (trim a)) approval \<noteq> Some ''yes'' \<and>
      map_option (\<lambda>a. toLowerCase (trim a)) approval \<noteq> Some ''y'')"

definition cancelled_result :: "tool_use \<Rightarrow> tool_result" where
  "cancelled_result toolUse =
     \<lparr>tool_use_id = tu_id toolUse,
      tr_content = error_json ''Edit cancelled by user. The changes were not made.'',
      is_error = True\<rparr>"

text \<open>The call of \<^verbatim>\<open>execute\<close>, the race, and the two \<^verbatim>\<open>return\<close>s that follow it.\<close>

definition result_of :: "tool_use \<Rightarrow> outcome \<Rightarrow> tool_result" where
  "result_of toolUse out =
     (case out of
        Resolved r \<Rightarrow> \<lparr>tool_use_id = tu_id toolUse, tr_content = r, is_error = False\<rparr>
      | Rejected errorMessage \<Rightarrow>
          \<lparr>tool_use_id = tu_id toolUse, tr_content = errorMessage, is_error = True\<rparr>
      | Pending \<Rightarrow>
          \<lparr>tool_use_id = tu_id toolUse, tr_content = ''Tool execution timed out after 30s'',
           is_error = True\<rparr>)"

definition call_execute :: "'w tool \<Rightarrow> tool_use \<Rightarrow> 'w state \<Rightarrow> tool_result \<times> 'w state" where
  "call_execute toolDef toolUse s =
     (case tool_execute toolDef (tu_input toolUse) (world s) of
        (out, w) \<Rightarrow>
          (result_of toolUse out,
           s\<lparr>world := w, trace := trace s @ [Executed (tu_id toolUse)]\<rparr>))"

text \<open>The body of the \<^verbatim>\<open>map\<close> callback of \<^verbatim>\<open>executeTools\<close>, for one request.\<close>

definition executeTool :: "'w tool list \<Rightarrow> tool_use \<Rightarrow> 'w state \<Rightarrow> tool_result \<times> 'w state" where
  "executeTool tools toolUse s =
     (case find (\<lambda>t. tool_name t = tu_name toolUse) tools of
        None \<Rightarrow>
          (\<lparr>tool_use_id = tu_id toolUse,
            tr_content = ''Error: Tool '' @ tu_name toolUse @ '' not found'',
            is_error = True\<rparr>, s)
      | Some toolDef \<Rightarrow>
          (case validateInput (tu_input toolUse) (tool_required toolDef) of
             Inl errorMessage \<Rightarrow>
               (\<lparr>tool_use_id = tu_id toolUse, tr_content = errorMessage, is_error = True\<rparr>, s)
           | Inr _ \<Rightarrow>
               (if needs_approval toolUse then
                  (case getUserMessage s of
                     (approval, s1) \<Rightarrow>
                       if declined approval then (cancelled_result toolUse, s1)
                       else call_execute toolDef toolUse s1)
                else call_execute toolDef toolUse s)))"

text \<open>
  \<^verbatim>\<open>executeTools\<close> with the requests served one after the other, each to its end, in the
  order of the batch: the reading used by the conversation loop below, where what matters is
  which batches are dispatched and which messages are pushed. The source starts the requests
  together (\<^verbatim>\<open>Promise.all\<close> over \<^verbatim>\<open>map\<close>); what that changes (requests that run side by side,
  reads of the operator's line that are pending at the same time, a batch that does not
  return) is the subject of \<open>executeTools_together\<close> further down.
\<close>

fun executeTools :: "'w tool list \<Rightarrow> tool_use list \<Rightarrow> 'w state \<Rightarrow> tool_result list \<times> 'w state" where
  "executeTools tools [] s = ([], s)"
| "executeTools tools (toolUse # rest) s =
     (case executeTool tools toolUse s of
        (r, s1) \<Rightarrow>
          (case executeTools tools rest s1 of
             (rs, s2) \<Rightarrow> (r # rs, s2)))"

text \<open>The entry of \<^verbatim>\<open>edit_file\<close> in the catalogue, for a platform \<open>env\<close>.\<close>

definition opt_field :: "(string \<times> json) list \<Rightarrow> string \<Rightarrow> (json \<Rightarrow> 'a option) \<Rightarrow> 'a option option" where
  "opt_field kvs k as =
     (case map_of kvs k of
        None \<Rightarrow> Some None
      | Some v \<Rightarrow> (case as v of None \<Rightarrow> None | Some x \<Rightarrow> Some (Some x)))"

definition as_string :: "json \<Rightarrow> string option" where
  "as_string v = (case v of JStr t \<Rightarrow> Some t | _ \<Rightarrow> None)"

definition as_bool :: "json \<Rightarrow> bool option" where
  "as_bool v = (case v of JBool b \<Rightarrow> Some b | _ \<Rightarrow> None)"

definition as_edit_input :: "json \<Rightarrow> edit_input option" where
  "as_edit_input input =
     (case input of
        JObj kvs \<Rightarrow>
          (case (opt_field kvs ''path'' as_string, opt_field kvs ''old_str'' as_string,
                 opt_field kvs ''new_str'' as_string, opt_field kvs ''mode'' as_string,
                 opt_field kvs ''confirm'' as_bool) of
             (Some (Some p), Some old, Some (Some new), Some m, Some c) \<Rightarrow>
               Some \<lparr>in_path = p, in_old_str = old, in_new_str = new, in_mode = m, in_confirm = c\<rparr>
           | _ \<Rightarrow> None)
      | _ \<Rightarrow> None)"

text \<open>
  What \<^verbatim>\<open>execute\<close> does on an input whose fields do not have the types of the casts is not
  modelled: it is the parameter \<open>untyped\<close>.
\<close>

definition EditFileTool :: "'fs sys \<Rightarrow> (json \<Rightarrow> 'fs \<Rightarrow> outcome \<times> 'fs) \<Rightarrow> 'fs tool" where
  "EditFileTool env untyped =
     \<lparr>tool_name = ''edit_file'',
      tool_required = [''path'', ''new_str''],
      tool_execute = (\<lambda>input fs.
        case as_edit_input input of
          Some i \<Rightarrow> (case edit_execute env i fs of (r, fs1) \<Rightarrow> (Resolved r, fs1))
        | None \<Rightarrow> untyped input fs)\<rparr>"

section \<open>The batch as Promise.all runs it (agent.ts, executeTools; input-handler.ts)\<close>

text \<open>
  The state of the input handler: the array \<^verbatim>\<open>lines\<close> of the lines received and not yet
  read, and \<^verbatim>\<open>resolvePromise\<close>, the one variable that holds the resolver of a pending read.
  Here it holds the index of the request whose read it would resolve. The function returned by
  \<^verbatim>\<open>createGetUserMessage\<close> hands out the first buffered line at once (\<open>Some\<close>); without one it
  returns a new pending promise (\<open>None\<close>) and stores its resolver in the variable, over
  whatever was there.
\<close>

record handler =
  lines :: "string list"
  resolvePromise :: "nat option"

definition read_line :: "nat \<Rightarrow> handler \<Rightarrow> string option \<times> handler" where
  "read_line reader h =
     (case lines h of
        l # ls \<Rightarrow> (Some l, h\<lparr>lines := ls\<rparr>)
      | [] \<Rightarrow> (None, h\<lparr>resolvePromise := Some reader\<rparr>))"

text \<open>
  What happens next on the input while a read is pending: the operator types a line (the
  \<^verbatim>\<open>line\<close> handler resolves the stored resolver with it), the input is closed (the \<^verbatim>\<open>close\<close>
  handler resolves it with \<^verbatim>\<open>null\<close>), or neither ever happens: the operator stays silent, or
  the input had been closed before the read was issued, which the handler does not remember.
\<close>

datatype later = TypesLine string | ClosesInput | NothingMore

text \<open>
  The part of the \<^verbatim>\<open>map\<close> callback that runs when it is started, up to its first \<^verbatim>\<open>await\<close>:
  the lookup of the tool and \<^verbatim>\<open>validateInput\<close>, and then either the read of the operator's
  line (an approval-gated request) or the call of \<^verbatim>\<open>execute\<close> (any other valid request).
\<close>

datatype 'w entry = NotFound | Invalid string | Gated "'w tool" | Direct "'w tool"

definition entry_of :: "'w tool list \<Rightarrow> tool_use \<Rightarrow> 'w entry" where
  "entry_of tools toolUse =
     (case find (\<lambda>t. tool_name t = tu_name toolUse) tools of
        None \<Rightarrow> NotFound
      | Some toolDef \<Rightarrow>
          (case validateInput (tu_input toolUse) (tool_required toolDef) of
             Inl errorMessage \<Rightarrow> Invalid errorMessage
           | Inr _ \<Rightarrow> if needs_approval toolUse then Gated toolDef else Direct toolDef))"

text \<open>
  \<^verbatim>\<open>map\<close> starts the callbacks in the order of the batch, each before any of them continues,
  so the reads of the gated requests are issued in that order on the same handler. For the
  request at index \<open>k\<close> the list holds \<open>None\<close> when it issues no read, and else what its read
  returned.
\<close>

fun start_reads :: "nat \<Rightarrow> 'w entry list \<Rightarrow> handler \<Rightarrow> string option option list \<times> handler" where
  "start_reads k [] h = ([], h)"
| "start_reads k (e # es) h =
     (case e of
        Gated _ \<Rightarrow>
          (case read_line k h of
             (r, h1) \<Rightarrow> (case start_reads (Suc k) es h1 of (rs, h2) \<Rightarrow> (Some r # rs, h2)))
      | _ \<Rightarrow> (case start_reads (Suc k) es h of (rs, h2) \<Rightarrow> (None # rs, h2)))"

text \<open>
  The value of \<^verbatim>\<open>approval\<close> of the request at index \<open>k\<close>, given the handler \<open>h\<close> as the started
  callbacks leave it: the line handed out at once; for a pending read whose resolver is still
  the stored one, what happens next on the input (\<open>Some None\<close> is \<^verbatim>\<open>null\<close>); \<open>None\<close> when the
  read never settles, because nothing happens on the input or because a later read of the
  batch has replaced its resolver.
\<close>

definition approval_of :: "handler \<Rightarrow> later \<Rightarrow> nat \<Rightarrow> string option \<Rightarrow> string option option" where
  "approval_of h after k r =
     (case r of
        Some l \<Rightarrow> Some (Some l)
      | None \<Rightarrow>
          if resolvePromise h = Some k
          then (case after of
                  TypesLine l \<Rightarrow> Some (Some l)
                | ClosesInput \<Rightarrow> Some None
                | NothingMore \<Rightarrow> None)
          else None)"

text \<open>
  How the promise of a callback ends: it returns a result without calling \<^verbatim>\<open>execute\<close> (tool
  not found, invalid input, approval declined), it calls \<^verbatim>\<open>execute\<close> and returns the result
  of the race, or it never settles.
\<close>

datatype 'w fate = Returns tool_result | Executes "'w tool" | NeverSettles

definition fate_of :: "tool_use \<Rightarrow> 'w entry \<Rightarrow> string option option \<Rightarrow> 'w fate" where
  "fate_of toolUse e approval =
     (case e of
        NotFound \<Rightarrow>
          Returns \<lparr>tool_use_id = tu_id toolUse,
                   tr_content = ''Error: Tool '' @ tu_name toolUse @ '' not found'',
                   is_error = True\<rparr>
      | Invalid errorMessage \<Rightarrow>
          Returns \<lparr>tool_use_id = tu_id toolUse, tr_content = errorMessage, is_error = True\<rparr>
      | Direct toolDef \<Rightarrow> Executes toolDef
      | Gated toolDef \<Rightarrow>
          (case approval of
             None \<Rightarrow> NeverSettles
           | Some a \<Rightarrow> if declined a then Returns (cancelled_result toolUse) else Executes toolDef))"

definition fates :: "'w tool list \<Rightarrow> tool_use list \<Rightarrow> handler \<Rightarrow> later \<Rightarrow> 'w fate list" where
  "fates tools blocks h after =
     (let entries = map (entry_of tools) blocks
      in case start_reads 0 entries h of
           (reads, h1) \<Rightarrow>
             map (\<lambda>k. fate_of (blocks ! k) (entries ! k)
                        (case reads ! k of None \<Rightarrow> None | Some r \<Rightarrow> approval_of h1 after k r))
                 [0 ..< length blocks])"

text \<open>
  The calls of \<^verbatim>\<open>execute\<close> of a batch, each with the index of its request, in the order in
  which they are made: those of the requests without a gate when the callbacks are started,
  those of the approved gated requests when their callbacks continue.
\<close>

definition calls ::
  "'w tool list \<Rightarrow> tool_use list \<Rightarrow> handler \<Rightarrow> later \<Rightarrow> (nat \<times> 'w tool \<times> tool_use) list" where
  "calls tools blocks h after =
     (let entries = map (entry_of tools) blocks; fs = fates tools blocks h after
      in concat (map (\<lambda>k. case entries ! k of Direct toolDef \<Rightarrow> [(k, toolDef, blocks ! k)] | _ \<Rightarrow> [])
                     [0 ..< length blocks])
         @ concat (map (\<lambda>k. case (entries ! k, fs ! k) of
                               (Gated _, Executes toolDef) \<Rightarrow> [(k, toolDef, blocks ! k)]
                             | _ \<Rightarrow> [])
                       [0 ..< length blocks]))"

text \<open>
  The calls of one batch run side by side: the file operations of one are interleaved with
  those of the others in an order that the platform decides, not the code of the repository.
  So what the calls together do to the world, and how each of them ends in its race against
  its own 30 second timer, is a parameter: from the calls and the world before, the way the
  call of the request at each index ends, and the world after.
\<close>

type_synonym 'w together = "(nat \<times> 'w tool \<times> tool_use) list \<Rightarrow> 'w \<Rightarrow> (nat \<Rightarrow> outcome) \<times> 'w"

text \<open>
  \<^verbatim>\<open>Promise.all\<close>: the values in the order of the promises once all of them have settled;
  \<open>None\<close> when one of them never settles (the callbacks catch every error, so none rejects).
\<close>

fun promise_all :: "'a option list \<Rightarrow> 'a list option" where
  "promise_all [] = Some []"
| "promise_all (p # ps) =
     (case p of
        None \<Rightarrow> None
      | Some v \<Rightarrow> (case promise_all ps of None \<Rightarrow> None | Some vs \<Rightarrow> Some (v # vs)))"

definition settle :: "tool_use \<Rightarrow> 'w fate \<Rightarrow> outcome \<Rightarrow> tool_result option" where
  "settle toolUse f out =
     (case f of
        Returns r \<Rightarrow> Some r
      | Executes _ \<Rightarrow> Some (result_of toolUse out)
      | NeverSettles \<Rightarrow> None)"

text \<open>
  \<^verbatim>\<open>executeTools\<close> on a batch, with the handler as it is when the batch is dispatched and what
  happens next on the input: the results and the world afterwards, or \<open>None\<close> when the
  function does not return.
\<close>

definition executeTools_together ::
  "'w tool list \<Rightarrow> 'w together \<Rightarrow> tool_use list \<Rightarrow> handler \<Rightarrow> later \<Rightarrow> 'w
     \<Rightarrow> (tool_result list \<times> 'w) option" where
  "executeTools_together tools together blocks h after w =
     (let fs = fates tools blocks h after
      in case together (calls tools blocks h after) w of
           (outs, w1) \<Rightarrow>
             (case promise_all (map (\<lambda>k. settle (blocks ! k) (fs ! k) (outs k)) [0 ..< length blocks]) of
                None \<Rightarrow> None
              | Some results \<Rightarrow> Some (results, w1)))"

section \<open>The conversation loop (agent.ts, runInference and run)\<close>

text \<open>
  The backend is a parameter: its answer to the \<open>n\<close>-th request, given the messages sent.
\<close>

type_synonym backend = "nat \<Rightarrow> message list \<Rightarrow> response"

definition tool_use_blocks :: "block list \<Rightarrow> tool_use list" where
  "tool_use_blocks bs = concat (map (\<lambda>b. case b of ToolUseBlock t \<Rightarrow> [t] | _ \<Rightarrow> []) bs)"

definition text_blocks :: "block list \<Rightarrow> string list" where
  "text_blocks bs = concat (map (\<lambda>b. case b of TextBlock t \<Rightarrow> [t] | _ \<Rightarrow> []) bs)"

text \<open>
  The \<^verbatim>\<open>while (continueLoop)\<close> loop of \<^verbatim>\<open>runInference\<close>. The array \<^verbatim>\<open>conversation\<close> is the
  caller's: what is pushed to it here is seen by \<^verbatim>\<open>run\<close>, so the loop returns it together
  with \<^verbatim>\<open>currentContent\<close>.
\<close>

function inference_loop ::
  "'w tool list \<Rightarrow> backend \<Rightarrow> message list \<Rightarrow> nat \<Rightarrow> 'w state
     \<Rightarrow> block list \<times> message list \<times> 'w state" where
  "inference_loop tools backend conversation toolTurns s =
     (let response = backend (backend_calls s) conversation;
          s1 = s\<lparr>backend_calls := backend_calls s + 1\<rparr>;
          currentContent = resp_content response;
          toolUseBlocks = tool_use_blocks currentContent
      in if length toolUseBlocks > 0 \<and> stop_reason response = ''tool_use'' then
           (if toolTurns + 1 > MAX_TOOL_TURNS then
              (currentContent, conversation, s1\<lparr>trace := trace s1 @ [StopNotice]\<rparr>)
            else
              (case executeTools tools toolUseBlocks
                      (s1\<lparr>trace := trace s1 @ [ToolBatch toolUseBlocks]\<rparr>) of
                 (toolResults, s2) \<Rightarrow>
                   inference_loop tools backend
                     (conversation @
                        [\<lparr>msg_role = Assistant, msg_content = BlockContent currentContent\<rparr>,
                         \<lparr>msg_role = User,
                          msg_content = BlockContent (map ToolResultBlock toolResults)\<rparr>])
                     (toolTurns + 1) s2))
         else
           (currentContent, conversation,
            s1\<lparr>trace := trace s1 @ map Printed (text_blocks currentContent)\<rparr>))"
  by pat_completeness auto
termination
  by (relation "measure (\<lambda>(tools, backend, conversation, toolTurns, s).
                  MAX_TOOL_TURNS + 1 - toolTurns)") auto

declare inference_loop.simps [simp del]

definition runInference ::
  "'w tool list \<Rightarrow> backend \<Rightarrow> message list \<Rightarrow> 'w state \<Rightarrow> block list \<times> message list \<times> 'w state" where
  "runInference tools backend conversation s = inference_loop tools backend conversation 0 s"

text \<open>
  The history bounding step of \<^verbatim>\<open>run\<close>: the \<^verbatim>\<open>while\<close> loop that walks \<^verbatim>\<open>sliceIndex\<close>
  forward to a user message with string content, and the \<^verbatim>\<open>slice\<close>.
\<close>

definition is_boundary :: "message \<Rightarrow> bool" where
  "is_boundary msg =
     (msg_role msg = User \<and>
      (case msg_content msg of StringContent _ \<Rightarrow> True | BlockContent _ \<Rightarrow> False))"

function find_boundary :: "message list \<Rightarrow> nat \<Rightarrow> nat" where
  "find_boundary conversation sliceIndex =
     (if sliceIndex < length conversation then
        (if is_boundary (conversation ! sliceIndex) then sliceIndex
         else find_boundary conversation (sliceIndex + 1))
      else sliceIndex)"
  by pat_completeness auto
termination
  by (relation "measure (\<lambda>(conversation, sliceIndex). length conversation - sliceIndex)") auto

declare find_boundary.simps [simp del]

definition bound_history :: "message list \<Rightarrow> message list" where
  "bound_history conversation =
     (if length conversation > 50
      then slice_from conversation (find_boundary conversation (length conversation - 50))
      else conversation)"

text \<open>
  The \<^verbatim>\<open>while (true)\<close> loop of \<^verbatim>\<open>run\<close>. It ends when the input is closed or the operator
  types exit or quit; every other round reads at least one line, so it ends on every finite
  input.
\<close>

function run_loop ::
  "'w tool list \<Rightarrow> backend \<Rightarrow> message list \<Rightarrow> 'w state \<Rightarrow> message list \<times> 'w state" where
  "run_loop tools backend conversation s =
     (case getUserMessage s of
        (None, s1) \<Rightarrow> (conversation, s1)
      | (Some userInput, s1) \<Rightarrow>
          (let trimmedInput = trim userInput in
           if trimmedInput = [] then run_loop tools backend conversation s1
           else if toLowerCase trimmedInput = ''exit'' \<or> toLowerCase trimmedInput = ''quit''
             then (conversation, s1)
           else
             (let userMessage = \<lparr>msg_role = User, msg_content = StringContent userInput\<rparr>;
                  conversation1 = bound_history (conversation @ [userMessage])
              in case runInference tools backend conversation1 s1 of
                   (assistantMessage, conversation2, s2) \<Rightarrow>
                     run_loop tools backend
                       (conversation2 @
                          [\<lparr>msg_role = Assistant, msg_content = BlockContent assistantMessage\<rparr>])
                       s2)))"
  by pat_completeness auto
termination
proof (relation "measure (\<lambda>(tools, backend, conversation, s). length (pending_lines s))", goal_cases)
  case 1
  show ?case by simp
next
  case 2
  then show ?case
    by (auto simp: getUserMessage_def split: list.splits)
next
  case (3 tools backend conversation s x y x2 xa xb xc xd ya xe yb)
  have tool: "length (pending_lines (snd (executeTool tl b t))) \<le> length (pending_lines t)"
    for tl :: "'w tool list" and b t
    by (auto simp: executeTool_def call_execute_def getUserMessage_def
             split: option.splits sum.splits list.splits prod.splits)
  have batch: "length (pending_lines (snd (executeTools tl bs t))) \<le> length (pending_lines t)"
    for tl :: "'w tool list" and bs t
  proof (induction bs arbitrary: t)
    case Nil
    show ?case by simp
  next
    case (Cons b bs)
    have "length (pending_lines (snd (executeTools tl bs (snd (executeTool tl b t)))))
            \<le> length (pending_lines (snd (executeTool tl b t)))"
      by (rule Cons.IH)
    also have "\<dots> \<le> length (pending_lines t)"
      by (rule tool)
    finally show ?case
      by (auto split: prod.splits)
  qed
  have loop: "length (pending_lines (snd (snd (inference_loop tl bk c n t))))
                \<le> length (pending_lines t)"
    for tl :: "'w tool list" and bk c n t
  proof (induction tl bk c n t rule: inference_loop.induct)
    case (1 tools backend conversation toolTurns s)
    let ?response = "backend (backend_calls s) conversation"
    let ?s1 = "s\<lparr>backend_calls := backend_calls s + 1\<rparr>"
    let ?uses = "tool_use_blocks (resp_content ?response)"
    let ?s1b = "?s1\<lparr>trace := trace ?s1 @ [ToolBatch ?uses]\<rparr>"
    show ?case
    proof (cases "0 < length ?uses \<and> stop_reason ?response = ''tool_use'' \<and> \<not> toolTurns + 1 > MAX_TOOL_TURNS")
      case False
      then show ?thesis
        by (subst inference_loop.simps) (auto simp: Let_def)
    next
      case True
      obtain rs s2 where ex: "executeTools tools ?uses ?s1b = (rs, s2)"
        by (cases "executeTools tools ?uses ?s1b")
      have "length (pending_lines s2) \<le> length (pending_lines ?s1b)"
        using batch [of tools ?uses ?s1b] ex by simp
      then have le: "length (pending_lines s2) \<le> length (pending_lines s)"
        by simp
      have "length (pending_lines (snd (snd (inference_loop tools backend
               (conversation @
                  [\<lparr>msg_role = Assistant, msg_content = BlockContent (resp_content ?response)\<rparr>,
                   \<lparr>msg_role = User, msg_content = BlockContent (map ToolResultBlock rs)\<rparr>])
               (toolTurns + 1) s2))))
             \<le> length (pending_lines s2)"
        by (rule "1.IH" [OF refl refl refl refl]) (use True ex in auto)
      with le True ex show ?thesis
        by (subst inference_loop.simps) (auto simp: Let_def)
    qed
  qed
  from 3 have "length (pending_lines y) < length (pending_lines s)"
    by (auto simp: getUserMessage_def split: list.splits)
  moreover have "length (pending_lines yb) \<le> length (pending_lines y)"
    using loop [of tools backend xc 0 y] 3(8,9) [symmetric]
    by (simp add: runInference_def)
  ultimately show ?case by simp
qed

declare run_loop.simps [simp del]

text \<open>\<^verbatim>\<open>saveConversation\<close> writes the transcript unless the conversation is empty.\<close>

definition saveConversation :: "message list \<Rightarrow> 'w state \<Rightarrow> 'w state" where
  "saveConversation conversation s =
     (if length conversation = 0 then s else s\<lparr>trace := trace s @ [Saved conversation]\<rparr>)"

definition initial_state :: "string list \<Rightarrow> 'w \<Rightarrow> 'w state" where
  "initial_state input w = \<lparr>pending_lines = input, world = w, backend_calls = 0, trace = []\<rparr>"

definition run :: "'w tool list \<Rightarrow> backend \<Rightarrow> string list \<Rightarrow> 'w \<Rightarrow> message list \<times> 'w state" where
  "run tools backend input w =
     (case run_loop tools backend [] (initial_state input w) of
        (conversation, s) \<Rightarrow> (conversation, saveConversation conversation s))"

section \<open>What the properties speak of\<close>

text \<open>
  Applying a change to a working copy of the lines, the way a patch is applied. The changes
  before it have been applied, so the change sits at index \<open>newStart\<close> of the working copy:
  the \<open>oldCount\<close> lines there must be the recorded old lines, the counts must be the lengths
  of the chunks, and the new lines take their place. Changes are applied in order; \<open>None\<close>
  means that a change does not fit.
\<close>

definition apply_change :: "change \<Rightarrow> string list \<Rightarrow> string list option" where
  "apply_change c cur =
     (if take (oldCount c) (drop (newStart c) cur) = oldChunk c \<and>
         length (oldChunk c) = oldCount c \<and> length (newChunk c) = newCount c
      then Some (take (newStart c) cur @ newChunk c @ drop (newStart c + oldCount c) cur)
      else None)"

fun apply_changes :: "change list \<Rightarrow> string list \<Rightarrow> string list option" where
  "apply_changes [] cur = Some cur"
| "apply_changes (c # cs) cur =
     (case apply_change c cur of None \<Rightarrow> None | Some cur' \<Rightarrow> apply_changes cs cur')"

text \<open>
  The same reconstruction read off the old positions only: copy the old lines from the
  cursor up to the change, emit the new lines of the change, and move the cursor past the
  old lines of the change; after the last change copy the rest.
\<close>

fun rebuild :: "string list \<Rightarrow> nat \<Rightarrow> change list \<Rightarrow> string list" where
  "rebuild oldLines pos [] = drop pos oldLines"
| "rebuild oldLines pos (c # cs) =
     slice oldLines pos (oldStart c) @ newChunk c @ rebuild oldLines (oldStart c + oldCount c) cs"

text \<open>The text of the end-to-end scenario, before and after the edit.\<close>

definition text_abc :: string where
  "text_abc = ''a'' @ NL @ ''b'' @ NL @ ''c'' @ NL"

definition text_aBc :: string where
  "text_aBc = ''a'' @ NL @ ''B'' @ NL @ ''c'' @ NL"

text \<open>A user message with string content, as \<^verbatim>\<open>run\<close> appends it.\<close>

definition user_text :: "string \<Rightarrow> message" where
  "user_text t = \<lparr>msg_role = User, msg_content = StringContent t\<rparr>"

text \<open>The number of batches handed to \<^verbatim>\<open>executeTools\<close> in a trace.\<close>

definition is_batch :: "event \<Rightarrow> bool" where
  "is_batch e = (case e of ToolBatch _ \<Rightarrow> True | _ \<Rightarrow> False)"

definition batches :: "event list \<Rightarrow> nat" where
  "batches tr = length (filter is_batch tr)"

text \<open>A response that carries tool_use blocks and has the stop reason tool_use.\<close>

definition tool_use_response :: "response \<Rightarrow> bool" where
  "tool_use_response r =
     (length (tool_use_blocks (resp_content r)) > 0 \<and> stop_reason r = ''tool_use'')"

text \<open>
  The pairing of the data model: an assistant message that contains a tool_use block is
  followed at once by a user message whose content is a sequence of tool_result blocks, one
  for each tool_use block, with its id.
\<close>

definition has_tool_use :: "message \<Rightarrow> bool" where
  "has_tool_use m =
     (msg_role m = Assistant \<and>
      (case msg_content m of
         BlockContent bs \<Rightarrow> tool_use_blocks bs \<noteq> []
       | StringContent _ \<Rightarrow> False))"

definition result_ids :: "block list \<Rightarrow> string list option" where
  "result_ids bs =
     (if list_all (\<lambda>b. case b of ToolResultBlock _ \<Rightarrow> True | _ \<Rightarrow> False) bs
      then Some (concat (map (\<lambda>b. case b of ToolResultBlock r \<Rightarrow> [tool_use_id r] | _ \<Rightarrow> []) bs))
      else None)"

definition answers :: "message \<Rightarrow> message \<Rightarrow> bool" where
  "answers m n =
     (msg_role n = User \<and>
      (case (msg_content m, msg_content n) of
         (BlockContent bs, BlockContent rs) \<Rightarrow>
           result_ids rs = Some (map tu_id (tool_use_blocks bs))
       | _ \<Rightarrow> False))"

fun paired :: "message list \<Rightarrow> bool" where
  "paired [] = True"
| "paired [m] = (\<not> has_tool_use m)"
| "paired (m # n # rest) = ((if has_tool_use m then answers m n else True) \<and> paired (n # rest))"

text \<open>
  That a string occurs in a text at a position, for counting occurrences that may overlap.
\<close>

definition occurs_at :: "string \<Rightarrow> string \<Rightarrow> nat \<Rightarrow> bool" where
  "occurs_at content pat p = (p + length pat \<le> length content \<and> startsWith (drop p content) pat)"

text \<open>
  An answer grants the approval when there is a line and, trimmed and in lower case, it is
  \<open>yes\<close> or \<open>y\<close>.
\<close>

definition grants :: "string option \<Rightarrow> bool" where
  "grants approval =
     (case approval of
        None \<Rightarrow> False
      | Some l \<Rightarrow> toLowerCase (trim l) = ''yes'' \<or> toLowerCase (trim l) = ''y'')"

text \<open>The path that \<^verbatim>\<open>execute\<close> resolves the input path to.\<close>

definition resolved :: "'fs sys \<Rightarrow> string \<Rightarrow> string" where
  "resolved env inputPath =
     (if path_isAbsolute env (expandTilde env inputPath) then expandTilde env inputPath
      else path_resolve env (cwd env) (expandTilde env inputPath))"

text \<open>The mode that \<^verbatim>\<open>execute\<close> reads from the input.\<close>

definition mode_of :: "edit_input \<Rightarrow> string" where
  "mode_of i = (case in_mode i of None \<Rightarrow> ''replace'' | Some m \<Rightarrow> if m = [] then ''replace'' else m)"

text \<open>
  The message that \<^verbatim>\<open>execute\<close> returns under the key \<^verbatim>\<open>error\<close> when, on an existing file
  and in a mode that needs \<open>old_str\<close>, the count of matches \<open>n\<close> is not one.
\<close>

definition no_single_match_message :: "edit_input \<Rightarrow> string \<Rightarrow> nat \<Rightarrow> string" where
  "no_single_match_message i old n =
     (if mode_of i = ''replace'' \<and> old = in_new_str i then
        [CHR 0x27] @ ''old_str'' @ [CHR 0x27] @ '' and '' @ [CHR 0x27] @ ''new_str'' @
        [CHR 0x27] @ '' must be different in replace mode.''
      else if n = 0 then
        ''String not found in '' @ [CHR 0x27] @ in_path i @ [CHR 0x27] @
        ''. Use read_file (with show_line_numbers and/or search) to check the current file contents and copy the exact text.''
      else
        ''Found '' @ String_of n @ '' occurrences of old_str in '' @ [CHR 0x27] @ in_path i @
        [CHR 0x27] @ ''. Include more surrounding context in old_str to match exactly one location.'')"

section \<open>A small platform and the inputs of the worked examples\<close>

text \<open>
  A file system in memory, as a list of paths with their contents, in which every operation
  succeeds except reading a file that is not there; paths are joined with a slash.
\<close>

definition mem_sys :: "(string \<times> string) list sys" where
  "mem_sys =
     \<lparr>homedir = ''/home/u'',
      cwd = ''/w'',
      path_join = (\<lambda>a b. a @ b),
      path_isAbsolute = (\<lambda>p. startsWith p ''/''),
      path_resolve = (\<lambda>a b. a @ ''/'' @ b),
      path_dirname = (\<lambda>p. rev (tl (dropWhile (\<lambda>c. c \<noteq> CHR ''/'') (rev p)))),
      fs_access = (\<lambda>fs p. map_of fs p \<noteq> None),
      fs_readFile = (\<lambda>fs p. case map_of fs p of
                       None \<Rightarrow> Inl \<lparr>err_name = ''Error'', err_code = ''ENOENT'',
                                      err_message = ''no such file''\<rparr>
                     | Some c \<Rightarrow> Inr c),
      fs_writeFile = (\<lambda>fs p c. (None, (p, c) # filter (\<lambda>kv. fst kv \<noteq> p) fs)),
      fs_mkdir = (\<lambda>fs p. (None, fs))\<rparr>"

definition no_untyped :: "json \<Rightarrow> (string \<times> string) list \<Rightarrow> outcome \<times> (string \<times> string) list" where
  "no_untyped input fs = (Rejected ''TypeError'', fs)"

definition mem_tools :: "(string \<times> string) list tool list" where
  "mem_tools = [EditFileTool mem_sys no_untyped]"

definition fs_abc :: "(string \<times> string) list" where
  "fs_abc = [(''/w/f.txt'', text_abc)]"

definition edit_b_to_B :: "bool \<Rightarrow> tool_use" where
  "edit_b_to_B confirmed =
     \<lparr>tu_id = ''toolu_1'', tu_name = ''edit_file'',
      tu_input = JObj ([(''path'', JStr ''f.txt''), (''old_str'', JStr ''b''), (''new_str'', JStr ''B'')]
                       @ (if confirmed then [(''confirm'', JBool True)] else []))\<rparr>"

text \<open>The state in which the supervisor is entered, with the lines the operator will type.\<close>

definition asked :: "string list \<Rightarrow> (string \<times> string) list state" where
  "asked ls = \<lparr>pending_lines = ls, world = fs_abc, backend_calls = 1, trace = []\<rparr>"

text \<open>A request whose \<open>old_str\<close> is not in the file, and a file in which \<open>aa\<close> occurs twice.\<close>

definition edit_x_to_B :: tool_use where
  "edit_x_to_B =
     \<lparr>tu_id = ''toolu_2'', tu_name = ''edit_file'',
      tu_input = JObj [(''path'', JStr ''f.txt''), (''old_str'', JStr ''x''), (''new_str'', JStr ''B'')]\<rparr>"

definition fs_aaa :: "(string \<times> string) list" where
  "fs_aaa = [(''/w/f.txt'', ''aaa'')]"

definition edit_aa_to_b :: tool_use where
  "edit_aa_to_b =
     \<lparr>tu_id = ''toolu_3'', tu_name = ''edit_file'',
      tu_input = JObj [(''path'', JStr ''f.txt''), (''old_str'', JStr ''aa''), (''new_str'', JStr ''b''),
                       (''confirm'', JBool True)]\<rparr>"

text \<open>The typed inputs of the scenario, without and with the confirmation.\<close>

definition scenario_input :: "string \<Rightarrow> bool option \<Rightarrow> edit_input" where
  "scenario_input p c =
     \<lparr>in_path = p, in_old_str = Some ''b'', in_new_str = ''B'', in_mode = None, in_confirm = c\<rparr>"

text \<open>The one change between the two texts of the scenario, and the lines of its hunk.\<close>

definition change_b_to_B :: change where
  "change_b_to_B =
     \<lparr>oldStart = 1, oldCount = 1, newStart = 1, newCount = 1,
      oldChunk = [''b''], newChunk = [''B'']\<rparr>"

definition hunk_b_to_B :: "string list" where
  "hunk_b_to_B =
     [''@@ Lines before & after: 1-4 '' @ ARROW @ '' 1-4 @@'',
      ''   1 '' @ BOX_V @ ''   a'',
      ''   2 '' @ BOX_V @ '' - b'',
      ''   2 '' @ BOX_V @ '' + B'',
      ''   3 '' @ BOX_V @ ''   c'',
      ''   4 '' @ BOX_V @ ''   '',
      []]"

definition snippet_aBc :: string where
  "snippet_aBc = ''1 | a'' @ NL @ ''2 | B'' @ NL @ ''3 | c'' @ NL @ ''4 | ''"

text \<open>
  The text of the diff in the preview of the scenario, for the path as given in the input:
  a rule, the path (after a space, without the escape sequences that the stripping finds in
  it), a rule, an empty line, the hunk, a rule.
\<close>

definition preview_diff :: "string \<Rightarrow> string" where
  "preview_diff filePath =
     join ([repeat BOX_H 80, '' '' @ stripAnsiForAgentJson (filePath @ C_reset), repeat BOX_H 80, []]
           @ hunk_b_to_B @ [repeat BOX_H 80]) NL"

text \<open>Two tools on a world without state: one answers, one never settles in time.\<close>

definition echo_tool :: "unit tool" where
  "echo_tool = \<lparr>tool_name = ''echo'', tool_required = [],
                tool_execute = (\<lambda>input w. (Resolved ''done'', w))\<rparr>"


definition call_of :: "string \<Rightarrow> string \<Rightarrow> tool_use" where
  "call_of i n = \<lparr>tu_id = i, tu_name = n, tu_input = JObj []\<rparr>"


text \<open>
  A platform on which each call of \<^verbatim>\<open>execute\<close> runs to its end before the next one starts,
  and a handler without a buffered line or a pending read.
\<close>

fun in_order :: "'w together" where
  "in_order [] w = ((\<lambda>k. Pending), w)"
| "in_order ((k, toolDef, toolUse) # cs) w =
     (case tool_execute toolDef (tu_input toolUse) w of
        (out, w1) \<Rightarrow> (case in_order cs w1 of (outs, w2) \<Rightarrow> (outs(k := out), w2)))"


text \<open>
  A backend that asks for the tool \<open>echo\<close> on each of its first eleven answers and then
  answers with a text.
\<close>

definition eleven_tool_turns :: backend where
  "eleven_tool_turns n msgs =
     (if n < 11
      then \<lparr>resp_content = [ToolUseBlock (call_of (''toolu_'' @ String_of n) ''echo'')],
            stop_reason = ''tool_use''\<rparr>
      else \<lparr>resp_content = [TextBlock ''done''], stop_reason = ''end_turn''\<rparr>)"

text \<open>
  A conversation of 51 messages: 17 rounds of a question, a tool request and its result.
\<close>

definition tool_round :: "message list" where
  "tool_round =
     [user_text ''q'',
      \<lparr>msg_role = Assistant, msg_content = BlockContent [ToolUseBlock (call_of ''t'' ''echo'')]\<rparr>,
      \<lparr>msg_role = User,
       msg_content = BlockContent [ToolResultBlock (result_of (call_of ''t'' ''echo'') (Resolved ''done''))]\<rparr>]"

definition rounds_51 :: "message list" where
  "rounds_51 = concat (replicate 17 tool_round)"

section \<open>The diff engine reconstructs the new text\<close>

lemma apply_changes_snoc:
  "apply_changes (cs @ [c]) cur =
     (case apply_changes cs cur of None \<Rightarrow> None | Some cur' \<Rightarrow> apply_change c cur')"
  by (induction cs arbitrary: cur) (auto split: option.splits)

lemma find_resync_SomeD:
  assumes "find_resync oldLines newLines i j = Some (oi, ni)"
  shows "i + oi < length oldLines" "j + ni < length newLines"
  using assms by (auto simp: find_resync_def find_Some_iff resync_at_def)

lemma apply_resync:
  assumes "i + oi < length oldLines" "j + ni < length newLines"
  shows "apply_change \<lparr>oldStart = i, oldCount = oi, newStart = j, newCount = ni,
                        oldChunk = slice oldLines i (i + oi),
                        newChunk = slice newLines j (j + ni)\<rparr>
           (take j newLines @ drop i oldLines)
         = Some (take (j + ni) newLines @ drop (i + oi) oldLines)"
  using assms by (simp add: apply_change_def slice_def take_add add.commute)

lemma apply_rest:
  assumes "i \<le> length oldLines" "j \<le> length newLines"
  shows "apply_change \<lparr>oldStart = i, oldCount = length oldLines - i, newStart = j,
                        newCount = length newLines - j,
                        oldChunk = slice_from oldLines i,
                        newChunk = slice_from newLines j\<rparr>
           (take j newLines @ drop i oldLines)
         = Some newLines"
  using assms by (simp add: apply_change_def slice_from_def)

lemma step_equal:
  assumes "i < length oldLines" "j < length newLines" "oldLines ! i = newLines ! j"
  shows "take (Suc j) newLines @ drop (Suc i) oldLines = take j newLines @ drop i oldLines"
proof -
  have "drop i oldLines = newLines ! j # drop (Suc i) oldLines"
    using Cons_nth_drop_Suc [OF assms(1)] assms(3) by simp
  then show ?thesis
    using assms(2) by (simp add: take_Suc_conv_app_nth)
qed

lemma diff_loop_done:
  "\<not> (i < length oldLines \<or> j < length newLines) \<Longrightarrow>
   diff_loop oldLines newLines i j changes = changes"
  by (subst diff_loop.simps) simp

lemma diff_loop_equal:
  "i < length oldLines \<Longrightarrow> j < length newLines \<Longrightarrow> oldLines ! i = newLines ! j \<Longrightarrow>
   diff_loop oldLines newLines i j changes = diff_loop oldLines newLines (i + 1) (j + 1) changes"
  by (subst diff_loop.simps) simp

lemma diff_loop_resync:
  "i < length oldLines \<or> j < length newLines \<Longrightarrow>
   \<not> (i < length oldLines \<and> j < length newLines \<and> oldLines ! i = newLines ! j) \<Longrightarrow>
   find_resync oldLines newLines i j = Some (oi, ni) \<Longrightarrow>
   diff_loop oldLines newLines i j changes =
     diff_loop oldLines newLines (i + oi) (j + ni)
       (changes @ [\<lparr>oldStart = i, oldCount = oi, newStart = j, newCount = ni,
                    oldChunk = slice oldLines i (i + oi),
                    newChunk = slice newLines j (j + ni)\<rparr>])"
  by (subst diff_loop.simps) auto

lemma diff_loop_rest:
  "i < length oldLines \<or> j < length newLines \<Longrightarrow>
   \<not> (i < length oldLines \<and> j < length newLines \<and> oldLines ! i = newLines ! j) \<Longrightarrow>
   find_resync oldLines newLines i j = None \<Longrightarrow>
   diff_loop oldLines newLines i j changes =
     changes @ [\<lparr>oldStart = i, oldCount = length oldLines - i,
                  newStart = j, newCount = length newLines - j,
                  oldChunk = slice_from oldLines i,
                  newChunk = slice_from newLines j\<rparr>]"
  by (subst diff_loop.simps) auto

lemma diff_loop_invariant:
  "i \<le> length oldLines \<Longrightarrow> j \<le> length newLines \<Longrightarrow>
   apply_changes changes start = Some (take j newLines @ drop i oldLines) \<Longrightarrow>
   apply_changes (diff_loop oldLines newLines i j changes) start = Some newLines"
proof (induction oldLines newLines i j changes rule: diff_loop.induct)
  case (1 oldLines newLines i j changes)
  show ?case
  proof (cases "i < length oldLines \<or> j < length newLines")
    case False
    with "1.prems" show ?thesis
      by (simp add: diff_loop_done)
  next
    case more: True
    show ?thesis
    proof (cases "i < length oldLines \<and> j < length newLines \<and> oldLines ! i = newLines ! j")
      case True
      then have "apply_changes changes start = Some (take (j + 1) newLines @ drop (i + 1) oldLines)"
        using "1.prems"(3) step_equal [of i oldLines j newLines] by simp
      then have "apply_changes (diff_loop oldLines newLines (i + 1) (j + 1) changes) start = Some newLines"
        using "1.IH"(1) [OF more True] True by simp
      with True show ?thesis
        by (simp add: diff_loop_equal)
    next
      case differ: False
      show ?thesis
      proof (cases "find_resync oldLines newLines i j")
        case None
        have "apply_changes changes start = Some (take j newLines @ drop i oldLines)"
          by (rule "1.prems"(3))
        then show ?thesis
          unfolding diff_loop_rest [OF more differ None]
          by (simp add: apply_changes_snoc apply_rest [OF "1.prems"(1,2)])
      next
        case (Some c)
        obtain oi ni where c: "c = (oi, ni)" by (cases c)
        note b = find_resync_SomeD [OF Some [unfolded c]]
        let ?c = "\<lparr>oldStart = i, oldCount = oi, newStart = j, newCount = ni,
                   oldChunk = slice oldLines i (i + oi), newChunk = slice newLines j (j + ni)\<rparr>"
        have "apply_changes (changes @ [?c]) start
                = Some (take (j + ni) newLines @ drop (i + oi) oldLines)"
          using "1.prems"(3) apply_resync [OF b] by (simp add: apply_changes_snoc)
        then have "apply_changes (diff_loop oldLines newLines (i + oi) (j + ni) (changes @ [?c])) start
                = Some newLines"
          using "1.IH"(2) [OF more differ Some [unfolded c] refl] b by simp
        then show ?thesis
          unfolding diff_loop_resync [OF more differ Some [unfolded c]] .
      qed
    qed
  qed
qed

lemma diff_loop_same:
  "oldLines = newLines \<Longrightarrow> i = j \<Longrightarrow> diff_loop oldLines newLines i j changes = changes"
proof (induction oldLines newLines i j changes rule: diff_loop.induct)
  case (1 oldLines newLines i j changes)
  show ?case
  proof (cases "j < length newLines")
    case True
    with 1 show ?thesis
      by (simp add: diff_loop_equal)
  next
    case False
    with 1 show ?thesis
      by (simp add: diff_loop_done)
  qed
qed

lemma find_resync_progress:
  assumes "find_resync oldLines newLines i j = Some (oi, ni)"
  shows "1 \<le> oi + ni"
proof -
  from assms have "(oi, ni) \<in> set candidates"
    by (auto simp: find_resync_def find_Some_iff)
  then show ?thesis
    by (auto simp: candidates_def)
qed

lemma diff_loop_accumulates:
  "diff_loop oldLines newLines i j changes = changes @ diff_loop oldLines newLines i j []"
proof (induction "(length oldLines - i) + (length newLines - j)" arbitrary: i j changes
       rule: less_induct)
  case less
  show ?case
  proof (cases "i < length oldLines \<or> j < length newLines")
    case False
    then show ?thesis
      by (simp add: diff_loop_done)
  next
    case more: True
    show ?thesis
    proof (cases "i < length oldLines \<and> j < length newLines \<and> oldLines ! i = newLines ! j")
      case True
      then have "diff_loop oldLines newLines (i + 1) (j + 1) changes
                   = changes @ diff_loop oldLines newLines (i + 1) (j + 1) []"
        by (intro less) auto
      moreover have "diff_loop oldLines newLines i j cs = diff_loop oldLines newLines (i + 1) (j + 1) cs"
        for cs
        using True by (intro diff_loop_equal) simp_all
      ultimately show ?thesis
        by simp
    next
      case differ: False
      show ?thesis
      proof (cases "find_resync oldLines newLines i j")
        case None
        show ?thesis
          by (simp add: diff_loop_rest [OF more differ None])
      next
        case (Some c)
        obtain oi ni where c: "c = (oi, ni)" by (cases c)
        note s = Some [unfolded c]
        note b = find_resync_SomeD [OF s] find_resync_progress [OF s]
        let ?c = "\<lparr>oldStart = i, oldCount = oi, newStart = j, newCount = ni,
                   oldChunk = slice oldLines i (i + oi), newChunk = slice newLines j (j + ni)\<rparr>"
        have ih: "diff_loop oldLines newLines (i + oi) (j + ni) cs
                   = cs @ diff_loop oldLines newLines (i + oi) (j + ni) []" for cs
          using b by (intro less) auto
        have "diff_loop oldLines newLines i j changes
                = diff_loop oldLines newLines (i + oi) (j + ni) (changes @ [?c])"
          by (rule diff_loop_resync [OF more differ s])
        also have "\<dots> = (changes @ [?c]) @ diff_loop oldLines newLines (i + oi) (j + ni) []"
          by (rule ih)
        also have "\<dots> = changes @ diff_loop oldLines newLines (i + oi) (j + ni) ([] @ [?c])"
          using ih [of "[] @ [?c]"] by simp
        also have "\<dots> = changes @ diff_loop oldLines newLines i j []"
          using diff_loop_resync [OF more differ s, of "[]"] by simp
        finally show ?thesis .
      qed
    qed
  qed
qed

lemma rebuild_diff_loop:
  "p \<le> i \<Longrightarrow> i \<le> length oldLines \<Longrightarrow> j \<le> length newLines \<Longrightarrow>
   rebuild oldLines p (diff_loop oldLines newLines i j []) = slice oldLines p i @ drop j newLines"
proof (induction "(length oldLines - i) + (length newLines - j)" arbitrary: p i j
       rule: less_induct)
  case less
  show ?case
  proof (cases "i < length oldLines \<or> j < length newLines")
    case False
    with less.prems show ?thesis
      by (simp add: diff_loop_done slice_def)
  next
    case more: True
    show ?thesis
    proof (cases "i < length oldLines \<and> j < length newLines \<and> oldLines ! i = newLines ! j")
      case True
      then have "rebuild oldLines p (diff_loop oldLines newLines (i + 1) (j + 1) [])
                   = slice oldLines p (i + 1) @ drop (j + 1) newLines"
        using less.prems by (intro less) auto
      moreover have "slice oldLines p (i + 1) = slice oldLines p i @ [oldLines ! i]"
      proof -
        have "i - p < length oldLines - p"
          using True less.prems(1) by arith
        then have "i - p < length (drop p oldLines)"
          by simp
        then have "take (Suc (i - p)) (drop p oldLines)
                     = take (i - p) (drop p oldLines) @ [drop p oldLines ! (i - p)]"
          by (rule take_Suc_conv_app_nth)
        moreover have "drop p oldLines ! (i - p) = oldLines ! i"
          using True less.prems(1) by simp
        ultimately show ?thesis
          using less.prems(1) by (simp add: slice_def Suc_diff_le)
      qed
      moreover have "drop j newLines = newLines ! j # drop (j + 1) newLines"
        using True by (simp add: Cons_nth_drop_Suc)
      ultimately show ?thesis
        using True by (simp add: diff_loop_equal)
    next
      case differ: False
      show ?thesis
      proof (cases "find_resync oldLines newLines i j")
        case None
        show ?thesis
          using less.prems
          by (simp add: diff_loop_rest [OF more differ None] slice_from_def)
      next
        case (Some c)
        obtain oi ni where c: "c = (oi, ni)" by (cases c)
        note s = Some [unfolded c]
        note b = find_resync_SomeD [OF s] find_resync_progress [OF s]
        let ?c = "\<lparr>oldStart = i, oldCount = oi, newStart = j, newCount = ni,
                   oldChunk = slice oldLines i (i + oi), newChunk = slice newLines j (j + ni)\<rparr>"
        have "diff_loop oldLines newLines i j []
                = diff_loop oldLines newLines (i + oi) (j + ni) ([] @ [?c])"
          by (rule diff_loop_resync [OF more differ s])
        then have d: "diff_loop oldLines newLines i j []
                = ?c # diff_loop oldLines newLines (i + oi) (j + ni) []"
          using diff_loop_accumulates [of oldLines newLines "i + oi" "j + ni" "[?c]"] by simp
        have "rebuild oldLines (i + oi) (diff_loop oldLines newLines (i + oi) (j + ni) [])
                = slice oldLines (i + oi) (i + oi) @ drop (j + ni) newLines"
          using b by (intro less) auto
        then have "rebuild oldLines p (diff_loop oldLines newLines i j [])
                = slice oldLines p i @ slice newLines j (j + ni) @ drop (j + ni) newLines"
          by (simp add: d slice_def)
        moreover have "slice newLines j (j + ni) @ drop (j + ni) newLines = drop j newLines"
          by (simp add: slice_def add.commute [of j ni] drop_drop [symmetric] del: drop_drop)
        ultimately show ?thesis
          by simp
      qed
    qed
  qed
qed

lemma split_text_abc: "split text_abc NL = [''a'', ''b'', ''c'', []]"
  by code_simp

lemma split_text_aBc: "split text_aBc NL = [''a'', ''B'', ''c'', []]"
  by code_simp

text \<open>
  C1. For all texts \<open>A\<close> and \<open>B\<close>, applying the changes computed for \<open>A\<close> and \<open>B\<close>, in order, to
  the lines of \<open>A\<close> succeeds (each change deletes exactly its recorded old lines, and its
  counts are the lengths of its chunks) and yields the lines of \<open>B\<close>; rebuilding from the old
  positions of the changes yields the lines of \<open>B\<close> as well. The changes computed for \<open>A\<close>
  against itself are none, and \<^verbatim>\<open>generateDiff\<close> then returns the marker \<^verbatim>\<open>(no changes)\<close>.
\<close>

theorem diff_reconstructs_new_text:
  "apply_changes (computeChanges A B) (split A NL) = Some (split B NL) \<and>
   rebuild (split A NL) 0 (computeChanges A B) = split B NL \<and>
   computeChanges A A = [] \<and>
   generateDiff A A filePath contextLines = ''(no changes)''"
proof -
  have "apply_changes (diff_loop (split A NL) (split B NL) 0 0 []) (split A NL) = Some (split B NL)"
    by (rule diff_loop_invariant) simp_all
  moreover have "rebuild (split A NL) 0 (diff_loop (split A NL) (split B NL) 0 0 []) = split B NL"
    using rebuild_diff_loop [of 0 0 "split A NL" 0 "split B NL"] by (simp add: slice_def)
  moreover have "diff_loop (split A NL) (split A NL) 0 0 [] = []"
    by (rule diff_loop_same) simp_all
  ultimately show ?thesis
    by (simp add: computeChanges_def generateDiff_def)
qed

theorem diff_reconstructs_new_text_witness:
  "apply_changes (computeChanges text_abc text_aBc) [''a'', ''b'', ''c'', []]
     = Some [''a'', ''B'', ''c'', []] \<and>
   rebuild [''a'', ''b'', ''c'', []] 0 (computeChanges text_abc text_aBc) = [''a'', ''B'', ''c'', []] \<and>
   computeChanges text_abc text_abc = [] \<and>
   generateDiff text_abc text_abc ''f.txt'' 3 = ''(no changes)''"
  using diff_reconstructs_new_text [of text_abc text_aBc "''f.txt''" 3]
  by (simp add: split_text_abc split_text_aBc)

section \<open>History bounding\<close>

lemma find_boundary_stops:
  "find_boundary conversation sliceIndex < length conversation \<Longrightarrow>
   is_boundary (conversation ! find_boundary conversation sliceIndex)"
proof (induction conversation sliceIndex rule: find_boundary.induct)
  case (1 conversation sliceIndex)
  show ?case
  proof (cases "sliceIndex < length conversation \<and> \<not> is_boundary (conversation ! sliceIndex)")
    case True
    then have eq: "find_boundary conversation sliceIndex = find_boundary conversation (sliceIndex + 1)"
      by (subst find_boundary.simps) simp
    with True "1.prems" "1.IH" show ?thesis
      by simp
  next
    case False
    then have "find_boundary conversation sliceIndex = sliceIndex"
      by (subst find_boundary.simps) auto
    with False "1.prems" show ?thesis
      by auto
  qed
qed

lemma find_boundary_le:
  "sliceIndex < length conversation \<Longrightarrow> is_boundary (last conversation) \<Longrightarrow>
   find_boundary conversation sliceIndex < length conversation"
proof (induction conversation sliceIndex rule: find_boundary.induct)
  case (1 conversation sliceIndex)
  show ?case
  proof (cases "is_boundary (conversation ! sliceIndex)")
    case True
    with "1.prems" show ?thesis
      by (subst find_boundary.simps) simp
  next
    case False
    from "1.prems"(1) have "conversation \<noteq> []"
      by auto
    then have "last conversation = conversation ! (length conversation - 1)"
      by (rule last_conv_nth)
    with False "1.prems"(2) have "sliceIndex \<noteq> length conversation - 1"
      by auto
    with "1.prems" have "sliceIndex + 1 < length conversation"
      by simp
    with False "1.prems" have "find_boundary conversation (sliceIndex + 1) < length conversation"
      by (intro "1.IH") simp_all
    with False "1.prems"(1) show ?thesis
      by (subst find_boundary.simps) simp
  qed
qed

lemma length_rounds_51: "length rounds_51 = 51"
  by code_simp

text \<open>
  C3. Whatever the conversation was, once a user message with string content has been
  appended and the length exceeds 50, the bounded conversation is not empty and its first
  message is a user message with string content.
\<close>

theorem bounded_history_starts_with_user_text:
  assumes "length (conversation @ [user_text userInput]) > 50"
  shows "bound_history (conversation @ [user_text userInput]) \<noteq> [] \<and>
         msg_role (hd (bound_history (conversation @ [user_text userInput]))) = User \<and>
         (\<exists>t. msg_content (hd (bound_history (conversation @ [user_text userInput]))) = StringContent t)"
proof -
  let ?c = "conversation @ [user_text userInput]"
  let ?k = "find_boundary ?c (length ?c - 50)"
  have "is_boundary (last ?c)"
    by (simp add: is_boundary_def user_text_def)
  then have k: "?k < length ?c"
    using assms by (intro find_boundary_le) simp_all
  then have b: "is_boundary (?c ! ?k)"
    by (rule find_boundary_stops)
  have eq: "bound_history ?c = drop ?k ?c"
    using assms by (simp add: bound_history_def slice_from_def)
  from k have "hd (drop ?k ?c) = ?c ! ?k"
    by (rule hd_drop_conv_nth)
  with b k eq show ?thesis
    by (auto simp: is_boundary_def split: content.splits)
qed

theorem bounded_history_starts_with_user_text_witness:
  "50 < length (rounds_51 @ [user_text ''hi'']) \<and>
   bound_history (rounds_51 @ [user_text ''hi'']) \<noteq> [] \<and>
   msg_role (hd (bound_history (rounds_51 @ [user_text ''hi'']))) = User \<and>
   (\<exists>t. msg_content (hd (bound_history (rounds_51 @ [user_text ''hi'']))) = StringContent t)"
proof -
  have h: "50 < length (rounds_51 @ [user_text ''hi''])"
    by (simp add: length_rounds_51)
  show ?thesis
    using h bounded_history_starts_with_user_text [OF h] by simp
qed






section \<open>The tool turn limit\<close>

lemma executeTool_keeps:
  "backend_calls (snd (executeTool tools b s)) = backend_calls s \<and>
   batches (trace (snd (executeTool tools b s))) = batches (trace s)"
  by (auto simp: executeTool_def call_execute_def getUserMessage_def batches_def is_batch_def
           split: option.splits sum.splits list.splits prod.splits)

lemma executeTools_keeps:
  "backend_calls (snd (executeTools tools bs s)) = backend_calls s \<and>
   batches (trace (snd (executeTools tools bs s))) = batches (trace s)"
proof (induction bs arbitrary: s)
  case Nil
  show ?case by simp
next
  case (Cons b bs)
  show ?case
    using Cons.IH [of "snd (executeTool tools b s)"] executeTool_keeps [of tools b s]
    by (auto split: prod.splits)
qed

lemma inference_loop_stop:
  assumes "tool_use_response (backend (backend_calls s) conversation)"
    and "toolTurns + 1 > MAX_TOOL_TURNS"
  shows "inference_loop tools backend conversation toolTurns s =
           (resp_content (backend (backend_calls s) conversation), conversation,
            s\<lparr>backend_calls := backend_calls s + 1, trace := trace s @ [StopNotice]\<rparr>)"
  using assms by (subst inference_loop.simps) (simp add: Let_def tool_use_response_def)

lemma inference_loop_final:
  assumes "\<not> tool_use_response (backend (backend_calls s) conversation)"
  shows "inference_loop tools backend conversation toolTurns s =
           (resp_content (backend (backend_calls s) conversation), conversation,
            s\<lparr>backend_calls := backend_calls s + 1,
              trace := trace s @ map Printed (text_blocks (resp_content (backend (backend_calls s) conversation)))\<rparr>)"
  using assms by (subst inference_loop.simps) (auto simp: Let_def tool_use_response_def)

lemma inference_loop_dispatch:
  assumes "tool_use_response (backend (backend_calls s) conversation)"
    and "\<not> toolTurns + 1 > MAX_TOOL_TURNS"
    and "executeTools tools (tool_use_blocks (resp_content (backend (backend_calls s) conversation)))
           (s\<lparr>backend_calls := backend_calls s + 1,
              trace := trace s @ [ToolBatch (tool_use_blocks (resp_content (backend (backend_calls s) conversation)))]\<rparr>)
         = (toolResults, s2)"
  shows "inference_loop tools backend conversation toolTurns s =
           inference_loop tools backend
             (conversation @
                [\<lparr>msg_role = Assistant,
                  msg_content = BlockContent (resp_content (backend (backend_calls s) conversation))\<rparr>,
                 \<lparr>msg_role = User, msg_content = BlockContent (map ToolResultBlock toolResults)\<rparr>])
             (toolTurns + 1) s2"
  using assms by (subst inference_loop.simps) (simp add: Let_def tool_use_response_def)

lemma batches_append: "batches (xs @ ys) = batches xs + batches ys"
  by (simp add: batches_def)

lemma batches_printed: "batches (map Printed ts) = 0"
  by (induction ts) (simp_all add: batches_def is_batch_def)

lemma inference_loop_batches:
  "batches (trace (snd (snd (inference_loop tools backend conversation toolTurns s))))
     \<le> batches (trace s) + (MAX_TOOL_TURNS - toolTurns)"
proof (induction tools backend conversation toolTurns s rule: inference_loop.induct)
  case (1 tools backend conversation toolTurns s)
  let ?response = "backend (backend_calls s) conversation"
  let ?uses = "tool_use_blocks (resp_content ?response)"
  let ?s1 = "s\<lparr>backend_calls := backend_calls s + 1\<rparr>"
  let ?s1b = "?s1\<lparr>trace := trace ?s1 @ [ToolBatch ?uses]\<rparr>"
  show ?case
  proof (cases "tool_use_response ?response")
    case False
    then show ?thesis
      by (simp add: inference_loop_final batches_append batches_printed)
  next
    case tu: True
    show ?thesis
    proof (cases "toolTurns + 1 > MAX_TOOL_TURNS")
      case True
      with tu show ?thesis
        by (simp add: inference_loop_stop batches_append batches_def is_batch_def)
    next
      case False
      obtain rs s2 where ex: "executeTools tools ?uses ?s1b = (rs, s2)"
        by (cases "executeTools tools ?uses ?s1b")
      have "batches (trace s2) = batches (trace ?s1b)"
        using executeTools_keeps [of tools ?uses ?s1b] ex by simp
      then have b2: "batches (trace s2) = batches (trace s) + 1"
        by (simp add: batches_append batches_def is_batch_def)
      let ?next = "inference_loop tools backend
             (conversation @
                [\<lparr>msg_role = Assistant, msg_content = BlockContent (resp_content ?response)\<rparr>,
                 \<lparr>msg_role = User, msg_content = BlockContent (map ToolResultBlock rs)\<rparr>])
             (toolTurns + 1) s2"
      have "batches (trace (snd (snd ?next))) \<le> batches (trace s2) + (MAX_TOOL_TURNS - (toolTurns + 1))"
        by (rule "1.IH" [OF refl refl refl refl]) (use tu False ex in \<open>auto simp: tool_use_response_def\<close>)
      moreover have "inference_loop tools backend conversation toolTurns s = ?next"
        using tu False ex by (intro inference_loop_dispatch) simp_all
      ultimately show ?thesis
        using b2 False by simp
    qed
  qed
qed

lemma inference_loop_always_tool_use:
  "toolTurns \<le> MAX_TOOL_TURNS \<Longrightarrow>
   (\<forall>n msgs. backend_calls s \<le> n \<and> n < backend_calls s + (MAX_TOOL_TURNS + 1 - toolTurns)
       \<longrightarrow> tool_use_response (backend n msgs)) \<Longrightarrow>
   inference_loop tools backend conversation toolTurns s = (content, conversation', s') \<Longrightarrow>
   batches (trace s') = batches (trace s) + (MAX_TOOL_TURNS - toolTurns) \<and>
   backend_calls s' = backend_calls s + (MAX_TOOL_TURNS + 1 - toolTurns) \<and>
   trace s' \<noteq> [] \<and> last (trace s') = StopNotice \<and>
   length conversation' = length conversation + 2 * (MAX_TOOL_TURNS - toolTurns) \<and>
   content = resp_content (backend (backend_calls s + (MAX_TOOL_TURNS - toolTurns)) conversation')"
proof (induction tools backend conversation toolTurns s rule: inference_loop.induct)
  case (1 tools backend conversation toolTurns s)
  let ?response = "backend (backend_calls s) conversation"
  let ?uses = "tool_use_blocks (resp_content ?response)"
  let ?s1 = "s\<lparr>backend_calls := backend_calls s + 1\<rparr>"
  let ?s1b = "?s1\<lparr>trace := trace ?s1 @ [ToolBatch ?uses]\<rparr>"
  have tu: "tool_use_response ?response"
    using "1.prems"(1,2) by simp
  show ?case
  proof (cases "toolTurns + 1 > MAX_TOOL_TURNS")
    case True
    with "1.prems"(1) have "toolTurns = MAX_TOOL_TURNS"
      by simp
    with tu True "1.prems"(3) show ?thesis
      by (auto simp: inference_loop_stop batches_append batches_def is_batch_def)
  next
    case False
    obtain rs s2 where ex: "executeTools tools ?uses ?s1b = (rs, s2)"
      by (cases "executeTools tools ?uses ?s1b")
    have keep: "backend_calls s2 = backend_calls s + 1" "batches (trace s2) = batches (trace s) + 1"
      using executeTools_keeps [of tools ?uses ?s1b] ex
      by (simp_all add: batches_append batches_def is_batch_def)
    let ?conv = "conversation @
                [\<lparr>msg_role = Assistant, msg_content = BlockContent (resp_content ?response)\<rparr>,
                 \<lparr>msg_role = User, msg_content = BlockContent (map ToolResultBlock rs)\<rparr>]"
    have step: "inference_loop tools backend conversation toolTurns s =
                inference_loop tools backend ?conv (toolTurns + 1) s2"
      using tu False ex by (intro inference_loop_dispatch) simp_all
    have "batches (trace s') = batches (trace s2) + (MAX_TOOL_TURNS - (toolTurns + 1)) \<and>
          backend_calls s' = backend_calls s2 + (MAX_TOOL_TURNS + 1 - (toolTurns + 1)) \<and>
          trace s' \<noteq> [] \<and> last (trace s') = StopNotice \<and>
          length conversation' = length ?conv + 2 * (MAX_TOOL_TURNS - (toolTurns + 1)) \<and>
          content = resp_content (backend (backend_calls s2 + (MAX_TOOL_TURNS - (toolTurns + 1))) conversation')"
    proof (rule "1.IH" [OF refl refl refl refl])
      show "0 < length ?uses \<and> stop_reason ?response = ''tool_use''"
        using tu by (simp add: tool_use_response_def)
      show "\<not> MAX_TOOL_TURNS < toolTurns + 1"
        using False by simp
      show "(rs, s2) = executeTools tools ?uses ?s1b"
        using ex by simp
      show "toolTurns + 1 \<le> MAX_TOOL_TURNS"
        using False by simp
      show "\<forall>n msgs. backend_calls s2 \<le> n \<and> n < backend_calls s2 + (MAX_TOOL_TURNS + 1 - (toolTurns + 1))
              \<longrightarrow> tool_use_response (backend n msgs)"
        using "1.prems"(2) keep(1) False by auto
      show "inference_loop tools backend ?conv (toolTurns + 1) s2 = (content, conversation', s')"
        using "1.prems"(3) step by simp
    qed
    moreover have "backend_calls s2 + (MAX_TOOL_TURNS - (toolTurns + 1))
                     = backend_calls s + (MAX_TOOL_TURNS - toolTurns)"
      using keep(1) False by simp
    moreover have "batches (trace s2) + (MAX_TOOL_TURNS - (toolTurns + 1))
                     = batches (trace s) + (MAX_TOOL_TURNS - toolTurns)"
      using keep(2) False by simp
    moreover have "backend_calls s2 + (MAX_TOOL_TURNS + 1 - (toolTurns + 1))
                     = backend_calls s + (MAX_TOOL_TURNS + 1 - toolTurns)"
      using keep(1) False by simp
    moreover have "length ?conv + 2 * (MAX_TOOL_TURNS - (toolTurns + 1))
                     = length conversation + 2 * (MAX_TOOL_TURNS - toolTurns)"
      using False by simp
    ultimately show ?thesis
      by metis
  qed
qed


text \<open>
  C5. Within one call of \<^verbatim>\<open>runInference\<close> at most 10 batches are handed to
  \<^verbatim>\<open>executeTools\<close>. A response that carries tool_use blocks with the stop reason tool_use
  when the counter already stands at 10 ends the loop at once: the notice is emitted, no
  batch is dispatched and nothing is appended to the conversation. So against a backend
  whose first 11 answers all ask for tools, the loop makes 11 requests, dispatches exactly
  10 batches, and ends with the notice, returning the content of the 11th answer.
\<close>

theorem tool_turns_bounded:
  "batches (trace (snd (snd (runInference tools backend conversation s))))
     \<le> batches (trace s) + 10 \<and>
   (tool_use_response (backend (backend_calls t) c) \<and> 10 \<le> toolTurns \<longrightarrow>
      inference_loop tools backend c toolTurns t =
        (resp_content (backend (backend_calls t) c), c,
         t\<lparr>backend_calls := backend_calls t + 1, trace := trace t @ [StopNotice]\<rparr>)) \<and>
   ((\<forall>n msgs. backend_calls s \<le> n \<and> n < backend_calls s + 11 \<longrightarrow> tool_use_response (backend n msgs)) \<longrightarrow>
      batches (trace (snd (snd (runInference tools backend conversation s)))) = batches (trace s) + 10 \<and>
      backend_calls (snd (snd (runInference tools backend conversation s))) = backend_calls s + 11 \<and>
      last (trace (snd (snd (runInference tools backend conversation s)))) = StopNotice \<and>
      length (fst (snd (runInference tools backend conversation s))) = length conversation + 20 \<and>
      fst (runInference tools backend conversation s) =
        resp_content (backend (backend_calls s + 10) (fst (snd (runInference tools backend conversation s)))))"
proof (intro conjI impI)
  show "batches (trace (snd (snd (runInference tools backend conversation s))))
          \<le> batches (trace s) + 10"
    using inference_loop_batches [of tools backend conversation 0 s]
    by (simp add: runInference_def MAX_TOOL_TURNS_def)
next
  assume "tool_use_response (backend (backend_calls t) c) \<and> 10 \<le> toolTurns"
  then show "inference_loop tools backend c toolTurns t =
        (resp_content (backend (backend_calls t) c), c,
         t\<lparr>backend_calls := backend_calls t + 1, trace := trace t @ [StopNotice]\<rparr>)"
    by (intro inference_loop_stop) (simp_all add: MAX_TOOL_TURNS_def)
next
  assume a: "\<forall>n msgs. backend_calls s \<le> n \<and> n < backend_calls s + 11 \<longrightarrow> tool_use_response (backend n msgs)"
  obtain content conversation' s' where
    r: "inference_loop tools backend conversation 0 s = (content, conversation', s')"
    by (cases "inference_loop tools backend conversation 0 s")
  have "batches (trace s') = batches (trace s) + (MAX_TOOL_TURNS - 0) \<and>
        backend_calls s' = backend_calls s + (MAX_TOOL_TURNS + 1 - 0) \<and>
        trace s' \<noteq> [] \<and> last (trace s') = StopNotice \<and>
        length conversation' = length conversation + 2 * (MAX_TOOL_TURNS - 0) \<and>
        content = resp_content (backend (backend_calls s + (MAX_TOOL_TURNS - 0)) conversation')"
    using a by (intro inference_loop_always_tool_use [OF _ _ r]) (simp_all add: MAX_TOOL_TURNS_def)
  then have all: "batches (trace s') = batches (trace s) + 10 \<and>
        backend_calls s' = backend_calls s + 11 \<and>
        last (trace s') = StopNotice \<and>
        length conversation' = length conversation + 20 \<and>
        content = resp_content (backend (backend_calls s + 10) conversation')"
    by (simp add: MAX_TOOL_TURNS_def)
  from all r show "batches (trace (snd (snd (runInference tools backend conversation s)))) = batches (trace s) + 10"
    by (simp add: runInference_def)
  from all r show "backend_calls (snd (snd (runInference tools backend conversation s))) = backend_calls s + 11"
    by (simp add: runInference_def)
  from all r show "last (trace (snd (snd (runInference tools backend conversation s)))) = StopNotice"
    by (simp add: runInference_def)
  from all r show "length (fst (snd (runInference tools backend conversation s))) = length conversation + 20"
    by (simp add: runInference_def)
  from all r show "fst (runInference tools backend conversation s) =
        resp_content (backend (backend_calls s + 10) (fst (snd (runInference tools backend conversation s))))"
    by (simp add: runInference_def)
qed

lemma eleven_tool_turns_asks:
  "\<forall>n msgs. backend_calls (initial_state [] ()) \<le> n \<and> n < backend_calls (initial_state [] ()) + 11
     \<longrightarrow> tool_use_response (eleven_tool_turns n msgs)"
  by (simp add: initial_state_def eleven_tool_turns_def tool_use_response_def tool_use_blocks_def)

theorem tool_turns_bounded_witness:
  "tool_use_response (eleven_tool_turns 10 []) \<and>
   batches (trace (snd (snd (runInference [echo_tool] eleven_tool_turns [user_text ''hi''] (initial_state [] ()))))) = 10 \<and>
   backend_calls (snd (snd (runInference [echo_tool] eleven_tool_turns [user_text ''hi''] (initial_state [] ())))) = 11 \<and>
   last (trace (snd (snd (runInference [echo_tool] eleven_tool_turns [user_text ''hi''] (initial_state [] ()))))) = StopNotice \<and>
   length (fst (snd (runInference [echo_tool] eleven_tool_turns [user_text ''hi''] (initial_state [] ())))) = 21 \<and>
   fst (runInference [echo_tool] eleven_tool_turns [user_text ''hi''] (initial_state [] ()))
     = [ToolUseBlock (call_of ''toolu_10'' ''echo'')]"
proof -
  have t: "tool_use_response (eleven_tool_turns 10 [])"
    by (simp add: eleven_tool_turns_def tool_use_response_def tool_use_blocks_def)
  have str: "String_of 10 = ''10''"
    by code_simp
  have c: "resp_content (eleven_tool_turns 10 msgs) = [ToolUseBlock (call_of ''toolu_10'' ''echo'')]" for msgs
    by (simp add: eleven_tool_turns_def str)
  have i: "backend_calls (initial_state [] ()) = 0" "batches (trace (initial_state [] ())) = 0"
    by (simp_all add: initial_state_def batches_def)
  show ?thesis
    using t eleven_tool_turns_asks
      tool_turns_bounded [of "[echo_tool]" eleven_tool_turns "[user_text ''hi'']" "initial_state [] ()"]
    by (simp add: c i)
qed


section \<open>The supervisor\<close>














lemma fates_nth_entry:
  "k < length blocks \<Longrightarrow>
   \<exists>approval. fates tools blocks h after ! k
      = fate_of (blocks ! k) (map (entry_of tools) blocks ! k) approval"
  by (auto simp: fates_def Let_def split: prod.splits)

text \<open>
  The calls that run side by side are those of the requests that reach \<^verbatim>\<open>execute\<close>, each
  with its own request, and no others.
\<close>

lemma calls_are_the_executed:
  "(k, toolDef, toolUse) \<in> set (calls tools blocks h after) \<longleftrightarrow>
   k < length blocks \<and> toolUse = blocks ! k \<and> fates tools blocks h after ! k = Executes toolDef"
proof
  assume "(k, toolDef, toolUse) \<in> set (calls tools blocks h after)"
  then consider
      (direct) "k < length blocks" "toolUse = blocks ! k" "entry_of tools (blocks ! k) = Direct toolDef"
    | (gated) t where "k < length blocks" "toolUse = blocks ! k"
        "entry_of tools (blocks ! k) = Gated t" "fates tools blocks h after ! k = Executes toolDef"
    by (auto simp: calls_def Let_def split: entry.splits fate.splits) metis
  then show "k < length blocks \<and> toolUse = blocks ! k \<and> fates tools blocks h after ! k = Executes toolDef"
  proof cases
    case direct
    with fates_nth_entry [OF direct(1), of tools h after] show ?thesis
      by (auto simp: fate_of_def)
  next
    case gated
    then show ?thesis by simp
  qed
next
  assume a: "k < length blocks \<and> toolUse = blocks ! k \<and> fates tools blocks h after ! k = Executes toolDef"
  then have k: "k < length blocks" by simp
  from fates_nth_entry [OF k, of tools h after] a
  have "entry_of tools (blocks ! k) = Direct toolDef \<or> (\<exists>t. entry_of tools (blocks ! k) = Gated t)"
    using k by (cases "entry_of tools (blocks ! k)")
               (auto simp: fate_of_def split: option.splits if_splits)
  with a k show "(k, toolDef, toolUse) \<in> set (calls tools blocks h after)"
    by (auto simp: calls_def Let_def split: entry.splits fate.splits)
qed

text \<open>
  For a batch of one request the two readings of \<^verbatim>\<open>executeTools\<close> agree, when the request
  has no gate or the line that answers it is already there: the result and the world are
  those of the request served alone.
\<close>

lemma single_request_agrees:
  assumes "world s = w"
    and "needs_approval toolUse \<Longrightarrow>
         hd (lines h) = hd (pending_lines s) \<and> lines h \<noteq> [] \<and> pending_lines s \<noteq> []"
  shows "executeTools_together tools in_order [toolUse] h after w
           = Some ([fst (executeTool tools toolUse s)], world (snd (executeTool tools toolUse s)))"
  using assms
  by (cases "lines h"; cases "pending_lines s")
     (auto simp: executeTools_together_def fates_def calls_def entry_of_def fate_of_def
        approval_of_def read_line_def settle_def executeTool_def call_execute_def
        getUserMessage_def Let_def
      split: option.splits sum.splits prod.splits if_splits)









section \<open>The approval gate of edit_file\<close>

lemma declined_iff: "declined approval = (\<not> grants approval)"
  by (cases approval) (auto simp: declined_def grants_def)

lemma gate_open:
  assumes "tu_name toolUse = ''edit_file''"
    and "tu_input toolUse = JObj kvs"
    and "map_of kvs ''confirm'' = Some (JBool True)"
  shows "needs_approval toolUse"
  using assms by (simp add: needs_approval_def)

lemma executeTool_gated:
  assumes "find (\<lambda>t. tool_name t = tu_name toolUse) tools = Some toolDef"
    and "validateInput (tu_input toolUse) (tool_required toolDef) = Inr ()"
    and "needs_approval toolUse"
  shows "executeTool tools toolUse s =
           (if declined (fst (getUserMessage s)) then (cancelled_result toolUse, snd (getUserMessage s))
            else call_execute toolDef toolUse (snd (getUserMessage s)))"
  using assms by (simp add: executeTool_def split: prod.splits)

lemma getUserMessage_world:
  "world (snd (getUserMessage s)) = world s \<and> trace (snd (getUserMessage s)) = trace s \<and>
   pending_lines (snd (getUserMessage s)) = drop 1 (pending_lines s) \<and>
   fst (getUserMessage s) = (case pending_lines s of [] \<Rightarrow> None | l # _ \<Rightarrow> Some l)"
  by (simp add: getUserMessage_def drop_Suc split: list.splits)

text \<open>
  C7. When a request named edit_file whose input has \<^verbatim>\<open>confirm\<close> true passes the lookup and
  the validation, and the operator's answer declines, the result is the error result with
  the cancellation text, no \<^verbatim>\<open>execute\<close> is called (the trace gets no event) and the world
  of the tools, so every file on disk, is as before. This holds for every tool definition
  found under that name, whatever its \<^verbatim>\<open>execute\<close> would do.
\<close>

theorem declined_edit_is_cancelled:
  assumes "tu_name toolUse = ''edit_file''"
    and "find (\<lambda>t. tool_name t = tu_name toolUse) tools = Some toolDef"
    and "validateInput (tu_input toolUse) (tool_required toolDef) = Inr ()"
    and "tu_input toolUse = JObj kvs"
    and "map_of kvs ''confirm'' = Some (JBool True)"
    and "declined (fst (getUserMessage s))"
  shows "fst (executeTool tools toolUse s)
           = \<lparr>tool_use_id = tu_id toolUse,
              tr_content = error_json ''Edit cancelled by user. The changes were not made.'',
              is_error = True\<rparr> \<and>
         world (snd (executeTool tools toolUse s)) = world s \<and>
         trace (snd (executeTool tools toolUse s)) = trace s"
proof -
  have "needs_approval toolUse"
    using assms(1,4,5) by (rule gate_open)
  then have "executeTool tools toolUse s = (cancelled_result toolUse, snd (getUserMessage s))"
    using assms(2,3,6) by (simp add: executeTool_gated)
  then show ?thesis
    by (simp add: cancelled_result_def getUserMessage_world)
qed

lemma mem_tools_find: "find (\<lambda>t. tool_name t = tu_name (edit_b_to_B c)) mem_tools
    = Some (EditFileTool mem_sys no_untyped)"
  by (simp add: mem_tools_def EditFileTool_def edit_b_to_B_def)

lemma mem_tools_valid:
  "validateInput (tu_input (edit_b_to_B c)) (tool_required (EditFileTool mem_sys no_untyped)) = Inr ()"
  by (simp add: validateInput_def EditFileTool_def edit_b_to_B_def)

lemma declined_no: "declined (Some ''no'')"
  by code_simp

lemma granted_yes: "grants (Some '' YES '')"
  by code_simp

lemma cancel_text:
  "error_json ''Edit cancelled by user. The changes were not made.''
     = ''{'' @ [DQUOTE] @ ''error'' @ [DQUOTE] @ '':'' @ [DQUOTE] @
       ''Edit cancelled by user. The changes were not made.'' @ [DQUOTE] @ ''}''"
  by code_simp

theorem declined_edit_is_cancelled_witness:
  "declined (fst (getUserMessage (asked [''no'']))) \<and>
   fst (executeTool mem_tools (edit_b_to_B True) (asked [''no'']))
     = \<lparr>tool_use_id = ''toolu_1'',
        tr_content = ''{'' @ [DQUOTE] @ ''error'' @ [DQUOTE] @ '':'' @ [DQUOTE] @
          ''Edit cancelled by user. The changes were not made.'' @ [DQUOTE] @ ''}'',
        is_error = True\<rparr> \<and>
   world (snd (executeTool mem_tools (edit_b_to_B True) (asked [''no'']))) = fs_abc \<and>
   trace (snd (executeTool mem_tools (edit_b_to_B True) (asked [''no'']))) = []"
proof -
  have d: "declined (fst (getUserMessage (asked [''no''])))"
    by (simp add: getUserMessage_def asked_def declined_no)
  have i: "tu_input (edit_b_to_B True) = JObj [(''path'', JStr ''f.txt''), (''old_str'', JStr ''b''),
             (''new_str'', JStr ''B''), (''confirm'', JBool True)]"
    by (simp add: edit_b_to_B_def)
  have n: "tu_name (edit_b_to_B True) = ''edit_file''" "tu_id (edit_b_to_B True) = ''toolu_1''"
    by (simp_all add: edit_b_to_B_def)
  show ?thesis
    using d declined_edit_is_cancelled [OF n(1) mem_tools_find mem_tools_valid i _ d]
    by (simp add: cancel_text n asked_def)
qed

text \<open>
  C10. At the approval gate the answer grants the approval exactly when there is a next
  line and that line, trimmed and in lower case, is \<open>yes\<close> or \<open>y\<close>. When it is granted,
  \<^verbatim>\<open>execute\<close> is called; in every other case (another text, an empty line, the end of the
  input) the result is the cancellation error, \<^verbatim>\<open>execute\<close> is not called and the world is
  unchanged.
\<close>

theorem approval_only_on_yes:
  assumes "tu_name toolUse = ''edit_file''"
    and "find (\<lambda>t. tool_name t = tu_name toolUse) tools = Some toolDef"
    and "validateInput (tu_input toolUse) (tool_required toolDef) = Inr ()"
    and "tu_input toolUse = JObj kvs"
    and "map_of kvs ''confirm'' = Some (JBool True)"
  shows "grants (fst (getUserMessage s)) =
           (case pending_lines s of
              [] \<Rightarrow> False
            | l # rest \<Rightarrow> toLowerCase (trim l) = ''yes'' \<or> toLowerCase (trim l) = ''y'') \<and>
         executeTool tools toolUse s =
           (if grants (fst (getUserMessage s))
            then call_execute toolDef toolUse (snd (getUserMessage s))
            else (\<lparr>tool_use_id = tu_id toolUse,
                   tr_content = error_json ''Edit cancelled by user. The changes were not made.'',
                   is_error = True\<rparr>, snd (getUserMessage s))) \<and>
         trace (snd (executeTool tools toolUse s)) =
           (if grants (fst (getUserMessage s)) then trace s @ [Executed (tu_id toolUse)]
            else trace s) \<and>
         (\<not> grants (fst (getUserMessage s)) \<longrightarrow> world (snd (executeTool tools toolUse s)) = world s)"
proof -
  have "needs_approval toolUse"
    using assms(1,4,5) by (rule gate_open)
  then have e: "executeTool tools toolUse s =
           (if grants (fst (getUserMessage s))
            then call_execute toolDef toolUse (snd (getUserMessage s))
            else (cancelled_result toolUse, snd (getUserMessage s)))"
    using assms(2,3) by (simp add: executeTool_gated declined_iff)
  have g: "grants (fst (getUserMessage s)) =
           (case pending_lines s of
              [] \<Rightarrow> False
            | l # rest \<Rightarrow> toLowerCase (trim l) = ''yes'' \<or> toLowerCase (trim l) = ''y'')"
    by (simp add: getUserMessage_world grants_def split: list.splits)
  have t: "trace (snd (call_execute toolDef toolUse u)) = trace u @ [Executed (tu_id toolUse)]" for u
    by (simp add: call_execute_def split: prod.splits)
  from e g t show ?thesis
    by (simp add: cancelled_result_def getUserMessage_world)
qed


lemma not_granted_other: "\<not> grants (Some ''yes please'')"
  by code_simp

lemma executed_on_yes:
  "snd (executeTool mem_tools (edit_b_to_B True) (asked ['' YES '']))
     = \<lparr>pending_lines = [], world = [(''/w/f.txt'', text_aBc)], backend_calls = 1,
        trace = [Executed ''toolu_1'']\<rparr>"
  by code_simp

theorem approval_only_on_yes_witness:
  "grants (fst (getUserMessage (asked ['' YES '']))) \<and>
   trace (snd (executeTool mem_tools (edit_b_to_B True) (asked ['' YES '']))) = [Executed ''toolu_1''] \<and>
   world (snd (executeTool mem_tools (edit_b_to_B True) (asked ['' YES '']))) = [(''/w/f.txt'', text_aBc)] \<and>
   \<not> grants (fst (getUserMessage (asked [''yes please'']))) \<and>
   trace (snd (executeTool mem_tools (edit_b_to_B True) (asked [''yes please'']))) = [] \<and>
   world (snd (executeTool mem_tools (edit_b_to_B True) (asked [''yes please'']))) = fs_abc \<and>
   \<not> grants (fst (getUserMessage (asked []))) \<and>
   fst (executeTool mem_tools (edit_b_to_B True) (asked []))
     = \<lparr>tool_use_id = ''toolu_1'',
        tr_content = error_json ''Edit cancelled by user. The changes were not made.'',
        is_error = True\<rparr>"
proof -
  have i: "tu_input (edit_b_to_B True) = JObj [(''path'', JStr ''f.txt''), (''old_str'', JStr ''b''),
             (''new_str'', JStr ''B''), (''confirm'', JBool True)]"
    by (simp add: edit_b_to_B_def)
  have n: "tu_name (edit_b_to_B True) = ''edit_file''" "tu_id (edit_b_to_B True) = ''toolu_1''"
    by (simp_all add: edit_b_to_B_def)
  have c: "map_of [(''path'', JStr ''f.txt''), (''old_str'', JStr ''b''),
             (''new_str'', JStr ''B''), (''confirm'', JBool True)] ''confirm'' = Some (JBool True)"
    by simp
  note T = approval_only_on_yes [OF n(1) mem_tools_find mem_tools_valid i c]
  have g: "grants (fst (getUserMessage (asked ['' YES ''])))"
          "\<not> grants (fst (getUserMessage (asked [''yes please''])))"
          "\<not> grants (fst (getUserMessage (asked [])))"
    using granted_yes not_granted_other
    by (simp_all add: getUserMessage_def asked_def) (simp add: grants_def)
  have a: "trace (asked ls) = []" "world (asked ls) = fs_abc" for ls
    by (simp_all add: asked_def)
  note Tt = T [THEN conjunct2, THEN conjunct2, THEN conjunct1]
  note Tw = T [THEN conjunct2, THEN conjunct2, THEN conjunct2, rule_format]
  note Te = T [THEN conjunct2, THEN conjunct1]
  have y: "trace (snd (executeTool mem_tools (edit_b_to_B True) (asked ['' YES '']))) = [Executed ''toolu_1'']"
    using Tt [of "asked ['' YES '']"] g(1) by (simp add: a n)
  have p: "trace (snd (executeTool mem_tools (edit_b_to_B True) (asked [''yes please'']))) = []"
          "world (snd (executeTool mem_tools (edit_b_to_B True) (asked [''yes please'']))) = fs_abc"
    using Tt [of "asked [''yes please'']"] Tw [of "asked [''yes please'']"] g(2) by (simp_all add: a)
  have e: "fst (executeTool mem_tools (edit_b_to_B True) (asked []))
     = \<lparr>tool_use_id = ''toolu_1'',
        tr_content = error_json ''Edit cancelled by user. The changes were not made.'',
        is_error = True\<rparr>"
    using Te [of "asked []"] g(3) by (simp add: n)
  have w: "world (snd (executeTool mem_tools (edit_b_to_B True) (asked ['' YES '']))) = [(''/w/f.txt'', text_aBc)]"
    by (simp only: executed_on_yes state.simps)
  from g y p e w show ?thesis
    by (simp only: simp_thms)
qed


section \<open>edit_file on an absent or ambiguous target\<close>

lemma as_edit_input_valid:
  assumes "as_edit_input input = Some i"
  shows "validateInput input [''path'', ''new_str''] = Inr ()"
proof -
  from assms obtain kvs where k: "input = JObj kvs"
    by (cases input) (simp_all add: as_edit_input_def)
  from assms k have "map_of kvs ''path'' \<noteq> None" "map_of kvs ''new_str'' \<noteq> None"
    by (auto simp: as_edit_input_def opt_field_def split: option.splits)
  then have "''path'' \<in> set (map fst kvs)" "''new_str'' \<in> set (map fst kvs)"
    by (auto simp: map_of_eq_None_iff)
  with k show ?thesis
    by (simp add: validateInput_def)
qed

lemma EditFileTool_execute:
  assumes "as_edit_input input = Some i"
  shows "tool_execute (EditFileTool env untyped) input fs
           = (Resolved (fst (edit_execute env i fs)), snd (edit_execute env i fs))"
  using assms by (simp add: EditFileTool_def split: prod.splits)

lemma edit_execute_no_single_match:
  assumes m: "mode_of i = ''replace'' \<or> mode_of i = ''insert_before'' \<or> mode_of i = ''insert_after''"
    and o: "in_old_str i = Some old" "old \<noteq> []"
    and a: "fs_access env fs (resolved env (in_path i))"
    and r: "fs_readFile env fs (resolved env (in_path i)) = Inr content"
    and n: "length (split content old) - 1 \<noteq> 1"
  shows "edit_execute env i fs =
           (error_json (no_single_match_message i old (length (split content old) - 1)), fs)"
proof -
  have v: "mode_of i \<in> set validModes" and na: "mode_of i \<noteq> ''append''"
    using m by (auto simp: validModes_def)
  have t: "truthy (Some old)"
    using o(2) by (simp add: truthy_def)
  have ex: "edit_existing env (Some old) (in_new_str i) (in_path i) (mode_of i) c
              (resolved env (in_path i)) content fs
            = (Inr (error_json
                 (if length (split content old) - 1 = 0 then
                    ''String not found in '' @ [CHR 0x27] @ in_path i @ [CHR 0x27] @
                    ''. Use read_file (with show_line_numbers and/or search) to check the current file contents and copy the exact text.''
                  else
                    ''Found '' @ String_of (length (split content old) - 1) @
                    '' occurrences of old_str in '' @ [CHR 0x27] @ in_path i @ [CHR 0x27] @
                    ''. Include more surrounding context in old_str to match exactly one location.'')), fs)"
    for c
  proof (cases "length (split content old) - 1 = 0")
    case True
    with na t show ?thesis
      by (simp add: edit_existing_def Let_def del: stringify.simps stringify_pretty.simps)
  next
    case False
    with n have "length (split content old) - 1 > 1"
      by arith
    with na t False show ?thesis
      by (simp add: edit_existing_def Let_def del: stringify.simps stringify_pretty.simps)
  qed
  have tr: "edit_try env (Some old) (in_new_str i) (in_path i) (mode_of i) c
              (resolved env (in_path i)) fs
            = edit_existing env (Some old) (in_new_str i) (in_path i) (mode_of i) c
              (resolved env (in_path i)) content fs"
    for c
    using a r by (simp add: edit_try_def Let_def)
  show ?thesis
    using v o(1)
    by (simp add: edit_execute_def Let_def mode_of_def [symmetric] resolved_def [symmetric]
          tr ex no_single_match_message_def)
qed

text \<open>
  C8, as amended. On an existing, readable file, in replace, insert_before or insert_after
  mode, with an \<open>old_str\<close> whose count of matches (found from left to right without overlap)
  is zero or more than one, nothing is written: the world is as before. The failure is a
  returned value of \<^verbatim>\<open>execute\<close>, not a thrown error: unless the request is an edit with
  \<^verbatim>\<open>confirm\<close> true that the operator declines (which gives the cancellation error), the
  result carries the message as the JSON text of an object with the key \<^verbatim>\<open>error\<close>, and it
  is not marked as an error.
\<close>

theorem no_single_match_writes_nothing:
  assumes "find (\<lambda>t. tool_name t = tu_name toolUse) tools = Some (EditFileTool env untyped)"
    and "as_edit_input (tu_input toolUse) = Some i"
    and "mode_of i = ''replace'' \<or> mode_of i = ''insert_before'' \<or> mode_of i = ''insert_after''"
    and "in_old_str i = Some old" and "old \<noteq> []"
    and "fs_access env (world s) (resolved env (in_path i))"
    and "fs_readFile env (world s) (resolved env (in_path i)) = Inr content"
    and "length (split content old) - 1 \<noteq> 1"
  shows "world (snd (executeTool tools toolUse s)) = world s \<and>
         fst (executeTool tools toolUse s) =
           (if needs_approval toolUse \<and> declined (fst (getUserMessage s))
            then cancelled_result toolUse
            else \<lparr>tool_use_id = tu_id toolUse,
                  tr_content = error_json
                    (no_single_match_message i old (length (split content old) - 1)),
                  is_error = False\<rparr>)"
proof -
  have v: "validateInput (tu_input toolUse) (tool_required (EditFileTool env untyped)) = Inr ()"
    using as_edit_input_valid [OF assms(2)] by (simp add: EditFileTool_def)
  have e: "tool_execute (EditFileTool env untyped) (tu_input toolUse) (world t)
             = (Resolved (error_json (no_single_match_message i old (length (split content old) - 1))),
                world t)"
    if "world t = world s" for t :: "'a state"
    using that EditFileTool_execute [OF assms(2), of env untyped "world s"]
      edit_execute_no_single_match [OF assms(3,4,5,6,7,8)]
    by simp
  have c: "call_execute (EditFileTool env untyped) toolUse t
             = (\<lparr>tool_use_id = tu_id toolUse,
                  tr_content = error_json
                    (no_single_match_message i old (length (split content old) - 1)),
                  is_error = False\<rparr>,
                t\<lparr>world := world t, trace := trace t @ [Executed (tu_id toolUse)]\<rparr>)"
    if "world t = world s" for t :: "'a state"
    using e [OF that] by (simp add: call_execute_def result_of_def)
  have g: "world (snd (getUserMessage s)) = world s"
    by (simp add: getUserMessage_def split: list.splits)
  show ?thesis
  proof (cases "needs_approval toolUse")
    case False
    with assms(1) v c [of s] show ?thesis
      by (simp add: executeTool_def)
  next
    case True
    have "executeTool tools toolUse s =
           (if declined (fst (getUserMessage s)) then (cancelled_result toolUse, snd (getUserMessage s))
            else call_execute (EditFileTool env untyped) toolUse (snd (getUserMessage s)))"
      using assms(1) v True by (rule executeTool_gated)
    with True c [OF g] g show ?thesis
      by simp
  qed
qed

lemma missing_target_facts:
  "as_edit_input (tu_input edit_x_to_B)
     = Some \<lparr>in_path = ''f.txt'', in_old_str = Some ''x'', in_new_str = ''B'', in_mode = None,
             in_confirm = None\<rparr>"
  "resolved mem_sys ''f.txt'' = ''/w/f.txt''"
  "length (split text_abc ''x'') - 1 = 0"
  "\<not> needs_approval edit_x_to_B"
  "fs_access mem_sys fs_abc ''/w/f.txt''"
  "fs_readFile mem_sys fs_abc ''/w/f.txt'' = Inr text_abc"
  by code_simp+

theorem no_single_match_writes_nothing_witness:
  "fs_readFile mem_sys (world (asked [])) ''/w/f.txt'' = Inr text_abc \<and>
   length (split text_abc ''x'') - 1 \<noteq> 1 \<and>
   world (snd (executeTool mem_tools edit_x_to_B (asked []))) = fs_abc \<and>
   fst (executeTool mem_tools edit_x_to_B (asked []))
     = \<lparr>tool_use_id = ''toolu_2'',
        tr_content = error_json (''String not found in '' @ [CHR 0x27] @ ''f.txt'' @ [CHR 0x27] @
          ''. Use read_file (with show_line_numbers and/or search) to check the current file contents and copy the exact text.''),
        is_error = False\<rparr>"
proof -
  let ?i = "\<lparr>in_path = ''f.txt'', in_old_str = Some ''x'', in_new_str = ''B'', in_mode = None,
             in_confirm = None\<rparr>"
  have f: "find (\<lambda>t. tool_name t = tu_name edit_x_to_B) mem_tools = Some (EditFileTool mem_sys no_untyped)"
    by (simp add: mem_tools_def EditFileTool_def edit_x_to_B_def)
  have m: "mode_of ?i = ''replace'' \<or> mode_of ?i = ''insert_before'' \<or> mode_of ?i = ''insert_after''"
    by (simp add: mode_of_def)
  have a: "fs_access mem_sys (world (asked [])) (resolved mem_sys (in_path ?i))"
    by (simp add: missing_target_facts asked_def)
  have r: "fs_readFile mem_sys (world (asked [])) (resolved mem_sys (in_path ?i)) = Inr text_abc"
    by (simp add: missing_target_facts asked_def)
  have n: "length (split text_abc ''x'') - 1 \<noteq> 1"
    using missing_target_facts(3) by simp
  have x: "''x'' \<noteq> []"
    by simp
  have o: "in_old_str ?i = Some ''x''"
    by simp
  note T = no_single_match_writes_nothing [OF f missing_target_facts(1) m o x a r n]
  have w: "world (asked []) = fs_abc" "tu_id edit_x_to_B = ''toolu_2''"
    by (simp_all add: asked_def edit_x_to_B_def)
  from T n missing_target_facts(3,4) show ?thesis
    by (simp add: no_single_match_message_def mode_of_def w missing_target_facts(6))
qed

text \<open>
  The claim as stated fails twice. A target that is absent gives a result that is not
  marked as an error. And a target that occurs twice in the file, at overlapping positions,
  is counted once: the edit is carried out and the file is written.
\<close>

theorem absent_target_not_an_error_result_counterexample:
  "length (split text_abc ''x'') - 1 = 0 \<and>
   is_error (fst (executeTool mem_tools edit_x_to_B (asked []))) = False \<and>
   occurs_at ''aaa'' ''aa'' 0 \<and> occurs_at ''aaa'' ''aa'' 1 \<and>
   length (split ''aaa'' ''aa'') - 1 = 1 \<and>
   world (snd (executeTool mem_tools edit_aa_to_b
            \<lparr>pending_lines = [''yes''], world = fs_aaa, backend_calls = 1, trace = []\<rparr>))
     = [(''/w/f.txt'', ''ba'')]"
  by code_simp


section \<open>The end-to-end scenario of edit_file\<close>

lemma scenario_facts:
  "length (split text_abc ''b'') = 2"
  "replace text_abc ''b'' ''B'' = text_aBc"
  "getChangeSnippet text_aBc ''B'' 3 = \<lparr>start_line = 1, end_line = 4, snippet = snippet_aBc\<rparr>"
  by code_simp+

lemma scenario_diff:
  "computeChanges text_abc text_aBc = [change_b_to_B]"
  "map stripAnsiForAgentJson
     (render_change (split text_abc NL) (split text_aBc NL) 3 change_b_to_B) = hunk_b_to_B"
  by code_simp+

lemma scenario_existing:
  "edit_existing env (Some ''b'') ''B'' p ''replace'' False f text_abc fs =
     (Inr (stringify (JObj
        [(''preview'', JBool True), (''action'', JStr ''replaced''), (''path'', JStr f),
         (''diff'', JStr (stripAnsiForAgentJson (generateDiff text_abc text_aBc p 3))),
         (''change_location'', JObj [(''start_line'', JNum 1), (''end_line'', JNum 4)]),
         (''message'', JStr ''Set 'confirm: true' to write these changes.'')])), fs)"
  "fs_writeFile env fs f text_aBc = (None, fs') \<Longrightarrow>
   edit_existing env (Some ''b'') ''B'' p ''replace'' True f text_abc fs =
     (Inr (stringify_pretty 0 (JObj
        [(''success'', JBool True), (''action'', JStr ''replaced''), (''path'', JStr f),
         (''change_location'', JObj [(''start_line'', JNum 1), (''end_line'', JNum 4)]),
         (''snippet'', JStr snippet_aBc)])), fs')"
  by (simp_all add: edit_existing_def Let_def truthy_def changedText_def scenario_facts
        del: stringify.simps stringify_pretty.simps)

lemma strip_Nil: "stripAnsiForAgentJson [] = []"
  by (subst stripAnsiForAgentJson.simps) simp

lemma strip_keep:
  "\<not> (c = ESC \<and> r \<noteq> [] \<and> hd r = CHR ''['') \<Longrightarrow>
   stripAnsiForAgentJson (c # r) = c # stripAnsiForAgentJson r"
  by (subst stripAnsiForAgentJson.simps) auto

lemma strip_skip:
  "stripAnsiForAgentJson (ESC # CHR ''['' # r)
     = stripAnsiForAgentJson (tl (dropWhile (\<lambda>x. x \<noteq> CHR ''m'') r))"
  by (subst stripAnsiForAgentJson.simps) simp

lemma strip_plain:
  "ESC \<notin> set a \<Longrightarrow> stripAnsiForAgentJson (a @ b) = a @ stripAnsiForAgentJson b"
proof (induction a)
  case Nil
  show ?case by simp
next
  case (Cons c a)
  then have "c \<noteq> ESC" by auto
  then have "stripAnsiForAgentJson (c # (a @ b)) = c # stripAnsiForAgentJson (a @ b)"
    by (intro strip_keep) simp
  with Cons show ?case by simp
qed

lemma strip_code:
  assumes "CHR ''m'' \<notin> set code"
  shows "stripAnsiForAgentJson (ESC # CHR ''['' # code @ CHR ''m'' # b) = stripAnsiForAgentJson b"
proof -
  from assms have "dropWhile (\<lambda>x. x \<noteq> CHR ''m'') (code @ CHR ''m'' # b) = CHR ''m'' # b"
    by (subst dropWhile_append2) auto
  then show ?thesis
    by (simp add: strip_skip)
qed

lemma strip_reset: "stripAnsiForAgentJson (C_reset @ y) = stripAnsiForAgentJson y"
  using strip_code [of "''0''" y] by (simp add: C_reset_def)

lemma strip_through_reset:
  "stripAnsiForAgentJson (x @ C_reset @ y)
     = stripAnsiForAgentJson (x @ C_reset) @ stripAnsiForAgentJson y"
proof (induction x rule: length_induct)
  case (1 x)
  show ?case
  proof (cases x)
    case Nil
    have "stripAnsiForAgentJson C_reset = []"
      using strip_reset [of "[]"] by (simp add: strip_Nil)
    with Nil show ?thesis
      by (simp add: strip_reset)
  next
    case (Cons c r)
    show ?thesis
    proof (cases "c = ESC \<and> r \<noteq> [] \<and> hd r = CHR ''[''")
      case False
      have h: "hd (C_reset @ z) \<noteq> CHR ''[''" "C_reset @ z \<noteq> []" for z
        by (simp_all add: C_reset_def ESC_def)
      have n: "\<not> (c = ESC \<and> r @ C_reset @ z \<noteq> [] \<and> hd (r @ C_reset @ z) = CHR ''['')" for z
        using False h [of z] by (cases r) auto
      have a: "stripAnsiForAgentJson (c # (r @ C_reset @ z)) = c # stripAnsiForAgentJson (r @ C_reset @ z)" for z
        using n [of z] by (rule strip_keep)
      have "stripAnsiForAgentJson (r @ C_reset @ y)
              = stripAnsiForAgentJson (r @ C_reset) @ stripAnsiForAgentJson y"
        using 1 Cons by simp
      with a [of y] a [of "[]"] Cons show ?thesis by simp
    next
      case True
      then obtain r' where r: "r = CHR ''['' # r'"
        by (cases r) auto
      let ?P = "\<lambda>x. x \<noteq> CHR ''m''"
      have a: "stripAnsiForAgentJson (x @ z) = stripAnsiForAgentJson (tl (dropWhile ?P (r' @ z)))" for z
        using True Cons r by (simp add: strip_skip)
      show ?thesis
      proof (cases "CHR ''m'' \<in> set r'")
        case True
        then have d: "dropWhile ?P (r' @ z) = dropWhile ?P r' @ z" for z
          by (subst dropWhile_append1) auto
        from True have ne: "dropWhile ?P r' \<noteq> []"
          by (simp add: dropWhile_eq_Nil_conv) 
        let ?t = "tl (dropWhile ?P r')"
        have t: "tl (dropWhile ?P (r' @ z)) = ?t @ z" for z
          using d ne by simp
        have "length (dropWhile ?P r') \<le> length r'"
          by (rule length_dropWhile_le)
        then have "length ?t < length x"
          using Cons r by simp
        then have "stripAnsiForAgentJson (?t @ C_reset @ y)
              = stripAnsiForAgentJson (?t @ C_reset) @ stripAnsiForAgentJson y"
          using 1 by simp
        then show ?thesis
          using a [of "C_reset @ y"] a [of C_reset] t [of "C_reset @ y"] t [of C_reset] by simp
      next
        case False
        then have d: "dropWhile ?P (r' @ z) = dropWhile ?P z" for z
          by (subst dropWhile_append2) auto
        have "tl (dropWhile ?P (C_reset @ y)) = y" "tl (dropWhile ?P C_reset) = []"
          by (simp_all add: C_reset_def ESC_def)
        then show ?thesis
          using a [of "C_reset @ y"] a [of C_reset] d [of "C_reset @ y"] d [of C_reset]
          by (simp add: strip_Nil)
      qed
    qed
  qed
qed

lemma join_two: "ys \<noteq> [] \<Longrightarrow> join (a # b # ys) sep = a @ sep @ b @ sep @ join ys sep"
  by (cases ys) simp_all

lemma scenario_render:
  "render_change (split text_abc NL) (split text_aBc NL) 3 change_b_to_B \<noteq> []"
  "stripAnsiForAgentJson rule_line = repeat BOX_H 80"
  "stripAnsiForAgentJson
     (NL @ join (rule_line # [] #
                 render_change (split text_abc NL) (split text_aBc NL) 3 change_b_to_B @ [rule_line]) NL)
     = NL @ join (repeat BOX_H 80 # [] # hunk_b_to_B @ [repeat BOX_H 80]) NL"
  by code_simp+

lemma scenario_generateDiff:
  "generateDiff text_abc text_aBc p 3 =
     join ([rule_line, C_bold @ C_cyan @ '' '' @ p @ C_reset, rule_line, []]
           @ render_change (split text_abc NL) (split text_aBc NL) 3 change_b_to_B
           @ [rule_line]) NL"
  using scenario_diff(1) by (simp add: generateDiff_def computeChanges_def Let_def del: join.simps)

lemma scenario_title:
  "stripAnsiForAgentJson ((NL @ C_bold @ C_cyan @ '' '' @ p) @ C_reset)
     = NL @ '' '' @ stripAnsiForAgentJson (p @ C_reset)"
proof -
  have "stripAnsiForAgentJson (NL @ C_bold @ C_cyan @ '' '' @ p @ C_reset)
          = NL @ stripAnsiForAgentJson (C_bold @ C_cyan @ '' '' @ p @ C_reset)"
    by (rule strip_plain) (simp add: NL_def ESC_def)
  also have "stripAnsiForAgentJson (C_bold @ C_cyan @ '' '' @ p @ C_reset)
          = stripAnsiForAgentJson (C_cyan @ '' '' @ p @ C_reset)"
    using strip_code [of "''1''" "C_cyan @ '' '' @ p @ C_reset"] by (simp add: C_bold_def)
  also have "\<dots> = stripAnsiForAgentJson ('' '' @ p @ C_reset)"
    using strip_code [of "''36''" "'' '' @ p @ C_reset"] by (simp add: C_cyan_def)
  also have "\<dots> = '' '' @ stripAnsiForAgentJson (p @ C_reset)"
    by (rule strip_plain) (simp add: ESC_def)
  finally show ?thesis by simp
qed

lemma scenario_preview_diff:
  "stripAnsiForAgentJson (generateDiff text_abc text_aBc p 3) = preview_diff p"
proof -
  let ?R = "render_change (split text_abc NL) (split text_aBc NL) 3 change_b_to_B"
  let ?T = "join (rule_line # [] # ?R @ [rule_line]) NL"
  have "generateDiff text_abc text_aBc p 3
          = join (rule_line # (C_bold @ C_cyan @ '' '' @ p @ C_reset) # (rule_line # [] # ?R @ [rule_line])) NL"
    by (simp add: scenario_generateDiff del: join.simps)
  also have "\<dots> = rule_line @ NL @ (C_bold @ C_cyan @ '' '' @ p @ C_reset) @ NL @ ?T"
    by (rule join_two) simp
  also have "\<dots> = (C_bold @ C_grey @ repeat BOX_H 80) @ C_reset @
                    ((NL @ C_bold @ C_cyan @ '' '' @ p) @ C_reset @ (NL @ ?T))"
    by (simp add: rule_line_def del: join.simps)
  finally have g: "generateDiff text_abc text_aBc p 3
          = (C_bold @ C_grey @ repeat BOX_H 80) @ C_reset @
            ((NL @ C_bold @ C_cyan @ '' '' @ p) @ C_reset @ (NL @ ?T))" .
  have "stripAnsiForAgentJson (generateDiff text_abc text_aBc p 3)
          = stripAnsiForAgentJson ((C_bold @ C_grey @ repeat BOX_H 80) @ C_reset) @
            stripAnsiForAgentJson ((NL @ C_bold @ C_cyan @ '' '' @ p) @ C_reset @ (NL @ ?T))"
    unfolding g by (rule strip_through_reset)
  also have "stripAnsiForAgentJson ((NL @ C_bold @ C_cyan @ '' '' @ p) @ C_reset @ (NL @ ?T))
          = stripAnsiForAgentJson ((NL @ C_bold @ C_cyan @ '' '' @ p) @ C_reset) @
            stripAnsiForAgentJson (NL @ ?T)"
    by (rule strip_through_reset)
  also have "(C_bold @ C_grey @ repeat BOX_H 80) @ C_reset = rule_line"
    by (simp add: rule_line_def)
  finally have "stripAnsiForAgentJson (generateDiff text_abc text_aBc p 3)
          = repeat BOX_H 80 @ (NL @ '' '' @ stripAnsiForAgentJson (p @ C_reset)) @
            (NL @ join (repeat BOX_H 80 # [] # hunk_b_to_B @ [repeat BOX_H 80]) NL)"
    by (simp only: scenario_render scenario_title)
  also have "\<dots> = join (repeat BOX_H 80 # ('' '' @ stripAnsiForAgentJson (p @ C_reset)) #
                          (repeat BOX_H 80 # [] # hunk_b_to_B @ [repeat BOX_H 80])) NL"
    by (subst join_two) simp_all
  finally show ?thesis
    by (simp add: preview_diff_def del: join.simps)
qed

lemma plain_title: "ESC \<notin> set p \<Longrightarrow> stripAnsiForAgentJson (p @ C_reset) = p"
  using strip_reset [of "[]"] by (simp add: strip_plain strip_Nil)

lemma preview_diff_f:
  "preview_diff ''f.txt'' =
     join [repeat BOX_H 80, '' f.txt'', repeat BOX_H 80, [],
           ''@@ Lines before & after: 1-4 '' @ ARROW @ '' 1-4 @@'',
           ''   1 '' @ BOX_V @ ''   a'',
           ''   2 '' @ BOX_V @ '' - b'',
           ''   2 '' @ BOX_V @ '' + B'',
           ''   3 '' @ BOX_V @ ''   c'',
           ''   4 '' @ BOX_V @ ''   '',
           [], repeat BOX_H 80] NL"
  by code_simp

text \<open>
  C9, as amended. On a platform where the resolved path names a readable file with the
  content \<open>a\<close>, \<open>b\<close>, \<open>c\<close> (each line ended by a line feed), the call with \<open>old_str\<close> \<open>b\<close>,
  \<open>new_str\<close> \<open>B\<close> and no \<^verbatim>\<open>confirm\<close> returns the preview object (\<^verbatim>\<open>preview\<close> true, action
  \<^verbatim>\<open>replaced\<close>) and leaves the file system as it is. Its \<^verbatim>\<open>diff\<close> is the text
  \<open>preview_diff\<close>: under the title with the path, one hunk whose lines show line 2 with \<open>b\<close>
  removed and line 2 with \<open>B\<close> added, between the unchanged lines 1, 3 and 4; this is what
  \<^verbatim>\<open>generateDiff\<close> gives on the two texts, without its colour codes (a path without an escape
  character is shown as it is). With \<^verbatim>\<open>confirm\<close> true, and the write succeeding, the file is
  written with \<open>a\<close>, \<open>B\<close>, \<open>c\<close> and the result is the success object (\<^verbatim>\<open>success\<close> true,
  action \<^verbatim>\<open>replaced\<close>). In both results \<^verbatim>\<open>change_location\<close> is the line range of the context
  snippet around the change, the changed line 2 widened by up to three lines on each side
  within the file: lines 1 to 4.
\<close>

theorem edit_scenario:
  assumes "fs_access env fs (resolved env p)"
    and "fs_readFile env fs (resolved env p) = Inr text_abc"
    and "fs_writeFile env fs (resolved env p) text_aBc = (None, fs')"
  shows "edit_execute env (scenario_input p None) fs =
           (stringify (JObj
              [(''preview'', JBool True), (''action'', JStr ''replaced''),
               (''path'', JStr (resolved env p)),
               (''diff'', JStr (preview_diff p)),
               (''change_location'', JObj [(''start_line'', JNum 1), (''end_line'', JNum 4)]),
               (''message'', JStr ''Set 'confirm: true' to write these changes.'')]), fs) \<and>
         stripAnsiForAgentJson (generateDiff text_abc text_aBc p 3) = preview_diff p \<and>
         (ESC \<notin> set p \<longrightarrow> stripAnsiForAgentJson (p @ C_reset) = p) \<and>
         computeChanges text_abc text_aBc = [change_b_to_B] \<and>
         map stripAnsiForAgentJson
           (render_change (split text_abc NL) (split text_aBc NL) 3 change_b_to_B) = hunk_b_to_B \<and>
         edit_execute env (scenario_input p (Some True)) fs =
           (stringify_pretty 0 (JObj
              [(''success'', JBool True), (''action'', JStr ''replaced''),
               (''path'', JStr (resolved env p)),
               (''change_location'', JObj [(''start_line'', JNum 1), (''end_line'', JNum 4)]),
               (''snippet'', JStr snippet_aBc)]), fs')"
proof -
  have v: "''replace'' \<in> set validModes"
    by (simp add: validModes_def)
  have t: "edit_try env (Some ''b'') ''B'' p ''replace'' c (resolved env p) fs
             = edit_existing env (Some ''b'') ''B'' p ''replace'' c (resolved env p) text_abc fs" for c
    using assms(1,2) by (simp add: edit_try_def Let_def)
  have "edit_execute env (scenario_input p None) fs =
           (stringify (JObj
              [(''preview'', JBool True), (''action'', JStr ''replaced''),
               (''path'', JStr (resolved env p)),
               (''diff'', JStr (preview_diff p)),
               (''change_location'', JObj [(''start_line'', JNum 1), (''end_line'', JNum 4)]),
               (''message'', JStr ''Set 'confirm: true' to write these changes.'')]), fs)"
    using v
    by (simp add: edit_execute_def scenario_input_def Let_def resolved_def [symmetric] t
          scenario_existing(1) scenario_preview_diff del: stringify.simps stringify_pretty.simps)
  moreover have "edit_execute env (scenario_input p (Some True)) fs =
           (stringify_pretty 0 (JObj
              [(''success'', JBool True), (''action'', JStr ''replaced''),
               (''path'', JStr (resolved env p)),
               (''change_location'', JObj [(''start_line'', JNum 1), (''end_line'', JNum 4)]),
               (''snippet'', JStr snippet_aBc)]), fs')"
    using v
    by (simp add: edit_execute_def scenario_input_def Let_def resolved_def [symmetric] t
          scenario_existing(2) [OF assms(3)] del: stringify.simps stringify_pretty.simps)
  ultimately show ?thesis
    using scenario_diff scenario_preview_diff [of p] plain_title [of p] by simp
qed

lemma scenario_platform:
  "resolved mem_sys ''f.txt'' = ''/w/f.txt''"
  "fs_access mem_sys fs_abc ''/w/f.txt''"
  "fs_readFile mem_sys fs_abc ''/w/f.txt'' = Inr text_abc"
  "fs_writeFile mem_sys fs_abc ''/w/f.txt'' text_aBc = (None, [(''/w/f.txt'', text_aBc)])"
  by code_simp+

theorem edit_scenario_witness:
  "fs_access mem_sys fs_abc ''/w/f.txt'' \<and>
   fs_readFile mem_sys fs_abc ''/w/f.txt'' = Inr text_abc \<and>
   fs_writeFile mem_sys fs_abc ''/w/f.txt'' text_aBc = (None, [(''/w/f.txt'', text_aBc)]) \<and>
   ESC \<notin> set ''f.txt'' \<and>
   edit_execute mem_sys (scenario_input ''f.txt'' None) fs_abc =
     (stringify (JObj
        [(''preview'', JBool True), (''action'', JStr ''replaced''), (''path'', JStr ''/w/f.txt''),
         (''diff'', JStr (join
            [repeat BOX_H 80, '' f.txt'', repeat BOX_H 80, [],
             ''@@ Lines before & after: 1-4 '' @ ARROW @ '' 1-4 @@'',
             ''   1 '' @ BOX_V @ ''   a'',
             ''   2 '' @ BOX_V @ '' - b'',
             ''   2 '' @ BOX_V @ '' + B'',
             ''   3 '' @ BOX_V @ ''   c'',
             ''   4 '' @ BOX_V @ ''   '',
             [], repeat BOX_H 80] NL)),
         (''change_location'', JObj [(''start_line'', JNum 1), (''end_line'', JNum 4)]),
         (''message'', JStr ''Set 'confirm: true' to write these changes.'')]), fs_abc) \<and>
   stripAnsiForAgentJson (''f.txt'' @ C_reset) = ''f.txt'' \<and>
   edit_execute mem_sys (scenario_input ''f.txt'' (Some True)) fs_abc =
     (stringify_pretty 0 (JObj
        [(''success'', JBool True), (''action'', JStr ''replaced''), (''path'', JStr ''/w/f.txt''),
         (''change_location'', JObj [(''start_line'', JNum 1), (''end_line'', JNum 4)]),
         (''snippet'', JStr snippet_aBc)]), [(''/w/f.txt'', text_aBc)])"
proof -
  have a: "fs_access mem_sys fs_abc (resolved mem_sys ''f.txt'')"
    by (simp only: scenario_platform)
  have r: "fs_readFile mem_sys fs_abc (resolved mem_sys ''f.txt'') = Inr text_abc"
    by (simp only: scenario_platform)
  have w: "fs_writeFile mem_sys fs_abc (resolved mem_sys ''f.txt'') text_aBc = (None, [(''/w/f.txt'', text_aBc)])"
    by (simp only: scenario_platform)
  have e: "ESC \<notin> set ''f.txt''"
    by (simp add: ESC_def)
  note T = edit_scenario [OF a r w]
  have 1: "edit_execute mem_sys (scenario_input ''f.txt'' None) fs_abc =
     (stringify (JObj
        [(''preview'', JBool True), (''action'', JStr ''replaced''), (''path'', JStr ''/w/f.txt''),
         (''diff'', JStr (join
            [repeat BOX_H 80, '' f.txt'', repeat BOX_H 80, [],
             ''@@ Lines before & after: 1-4 '' @ ARROW @ '' 1-4 @@'',
             ''   1 '' @ BOX_V @ ''   a'',
             ''   2 '' @ BOX_V @ '' - b'',
             ''   2 '' @ BOX_V @ '' + B'',
             ''   3 '' @ BOX_V @ ''   c'',
             ''   4 '' @ BOX_V @ ''   '',
             [], repeat BOX_H 80] NL)),
         (''change_location'', JObj [(''start_line'', JNum 1), (''end_line'', JNum 4)]),
         (''message'', JStr ''Set 'confirm: true' to write these changes.'')]), fs_abc)"
    using T [THEN conjunct1] by (simp only: scenario_platform(1) preview_diff_f)
  have 2: "stripAnsiForAgentJson (''f.txt'' @ C_reset) = ''f.txt''"
    using T [THEN conjunct2, THEN conjunct2, THEN conjunct1] e by (rule mp)
  have 3: "edit_execute mem_sys (scenario_input ''f.txt'' (Some True)) fs_abc =
     (stringify_pretty 0 (JObj
        [(''success'', JBool True), (''action'', JStr ''replaced''), (''path'', JStr ''/w/f.txt''),
         (''change_location'', JObj [(''start_line'', JNum 1), (''end_line'', JNum 4)]),
         (''snippet'', JStr snippet_aBc)]), [(''/w/f.txt'', text_aBc)])"
    using T [THEN conjunct2, THEN conjunct2, THEN conjunct2, THEN conjunct2, THEN conjunct2]
    by (simp only: scenario_platform(1))
  from 1 2 3 e scenario_platform(2,3,4) show ?thesis
    by (simp only: simp_thms)
qed

text \<open>
  The claim as stated fails: after the confirmed edit the reported location is lines 1 to 4,
  not line 2.
\<close>

theorem change_location_is_snippet_range_counterexample:
  "start_line (getChangeSnippet text_aBc ''B'' 3) = 1 \<and>
   end_line (getChangeSnippet text_aBc ''B'' 3) = 4 \<and>
   start_line (getChangeSnippet text_aBc ''B'' 3) \<noteq> 2 \<and>
   end_line (getChangeSnippet text_aBc ''B'' 3) \<noteq> 2 \<and>
   tool_execute (EditFileTool mem_sys no_untyped) (tu_input (edit_b_to_B True)) fs_abc =
     (Resolved (stringify_pretty 0 (JObj
        [(''success'', JBool True), (''action'', JStr ''replaced''), (''path'', JStr ''/w/f.txt''),
         (''change_location'', JObj [(''start_line'', JNum 1), (''end_line'', JNum 4)]),
         (''snippet'', JStr snippet_aBc)])),
      [(''/w/f.txt'', text_aBc)])"
  by code_simp

section \<open>The pairing of tool requests and tool results\<close>

text \<open>
  C2 does not hold of the program. With a backend that asks for a tool on eleven answers in
  a row, the eleventh answer is returned by \<^verbatim>\<open>runInference\<close> at the turn limit and appended
  by \<^verbatim>\<open>run\<close> as an assistant message; no tool-result message follows it, the next message
  is the next line of the operator.
\<close>

theorem turn_limit_splits_pairing:
  "fst (run [echo_tool] eleven_tool_turns [''hi'', ''again''] ()) ! 21
     = \<lparr>msg_role = Assistant,
        msg_content = BlockContent [ToolUseBlock (call_of ''toolu_10'' ''echo'')]\<rparr> \<and>
   fst (run [echo_tool] eleven_tool_turns [''hi'', ''again''] ()) ! 22 = user_text ''again'' \<and>
   length (fst (run [echo_tool] eleven_tool_turns [''hi'', ''again''] ())) = 24 \<and>
   \<not> paired (fst (run [echo_tool] eleven_tool_turns [''hi'', ''again''] ())) \<and>
   paired (take 21 (fst (run [echo_tool] eleven_tool_turns [''hi'', ''again''] ())))"
  by code_simp


end
